theory Spec2Isabelle
  imports Main "HOL-Library.Multiset"
begin

section \<open>Batched simulation shim of mjaccess.c\<close>

text \<open>
  The development embeds the batched part of \<^verbatim>\<open>NativeShim/mjaccess.c\<close> (together with the
  single-environment functions it is compared with) over an explicit store.

  \<^item> A \<^verbatim>\<open>double\<close> is a value of an arbitrary type \<open>'a\<close>: the shim only copies doubles
    (\<^verbatim>\<open>memcpy\<close>), it never computes with them.
  \<^item> A pointer is an address or \<open>None\<close> (\<^verbatim>\<open>NULL\<close>); the structures the shim shares by
    pointer (\<^verbatim>\<open>mjModel\<close>, \<^verbatim>\<open>mjData\<close>, \<^verbatim>\<open>MjAccessBatchedSim\<close>) live in maps from
    addresses, so that aliasing, release and use after release are visible.
  \<^item> Undefined behaviour of the C code (a null or dangling dereference, a copy that
    leaves an array) is the value \<open>Inl\<close> of a \<open>fault\<close>.
  \<^item> The physics engine is external: \<^verbatim>\<open>mj_makeData\<close>, \<^verbatim>\<open>mj_step\<close> and
    \<^verbatim>\<open>mj_resetData\<close> are the fields of a parameter \<open>eng\<close>.
  \<^item> The sizes \<^verbatim>\<open>nq\<close>, \<^verbatim>\<open>nv\<close>, \<^verbatim>\<open>nu\<close>, \<^verbatim>\<open>nbody\<close> of a model are natural numbers
    (the engine never builds a model with a negative size) and the products the shim
    forms from them are taken in the integers, that is, within the range of \<^verbatim>\<open>int\<close>.
\<close>

subsection \<open>Data\<close>

type_synonym addr = nat

datatype fault = NullDeref | Dangling | OutOfBounds

text \<open>\<^verbatim>\<open>mjModel\<close>: the fields the shim reads or writes, and all the others in \<open>params\<close>.\<close>

record 'p mjModel =
  nq :: nat
  nv :: nat
  nu :: nat
  nbody :: nat
  opt_iterations :: int
  params :: 'p

text \<open>\<^verbatim>\<open>mjData\<close>: the arrays the batched shim touches, and the rest of the state in \<open>internal\<close>.\<close>

record ('a, 'r) mjData =
  qpos :: "'a list"
  qvel :: "'a list"
  ctrl :: "'a list"
  xpos :: "'a list"
  subtree_com :: "'a list"
  cinert :: "'a list"
  cvel :: "'a list"
  qfrc_actuator :: "'a list"
  cfrc_ext :: "'a list"
  internal :: 'r

text \<open>\<^verbatim>\<open>struct MjAccessModel { mjModel* mj; }\<close>\<close>

record MjAccessModel =
  model_mj :: "addr option"

text \<open>\<^verbatim>\<open>struct MjAccessData { mjData* mj; mjModel* model_ref; }\<close>\<close>

record MjAccessData =
  data_mj :: "addr option"
  data_model_ref :: addr

text \<open>\<^verbatim>\<open>MjAccessBatchedConfig\<close>\<close>

record MjAccessBatchedConfig =
  cfg_num_envs :: int
  solver_iterations :: int

text \<open>
  \<^verbatim>\<open>struct MjAccessBatchedSim\<close>. The array \<^verbatim>\<open>datas\<close> and the gather buffers are owned by
  the structure and reached through it only, so they are stored in it; each is \<open>None\<close>
  when the pointer is \<^verbatim>\<open>NULL\<close>.
\<close>

record 'a MjAccessBatchedSim =
  model_ref :: addr
  num_envs :: int
  datas :: "addr option list option"
  qpos_buf :: "'a list option"
  qvel_buf :: "'a list option"
  xpos_buf :: "'a list option"
  subtree_com_buf :: "'a list option"
  cinert_buf :: "'a list option"
  cvel_buf :: "'a list option"
  qfrc_actuator_buf :: "'a list option"
  cfrc_ext_buf :: "'a list option"

text \<open>The external engine.\<close>

record ('a, 'r, 'p) engine =
  mj_makeData :: "'p mjModel \<Rightarrow> ('a, 'r) mjData"
  mj_step :: "'p mjModel \<Rightarrow> ('a, 'r) mjData \<Rightarrow> ('a, 'r) mjData"
  mj_resetData :: "'p mjModel \<Rightarrow> ('a, 'r) mjData \<Rightarrow> ('a, 'r) mjData"

text \<open>
  The store. \<open>next_addr\<close> is the next address an allocation returns. \<open>libc_plan\<close> and
  \<open>makeData_plan\<close> say which of the coming \<^verbatim>\<open>calloc\<close>/\<^verbatim>\<open>malloc\<close> calls and which of the
  coming \<^verbatim>\<open>mj_makeData\<close> calls succeed (\<open>False\<close>: the call returns \<^verbatim>\<open>NULL\<close>; a call
  beyond the end of the plan succeeds). \<open>uninit\<close> is what fresh \<^verbatim>\<open>malloc\<close> memory holds.
\<close>

record ('a, 'r, 'p) world =
  mjmodels :: "addr \<rightharpoonup> 'p mjModel"
  mjdatas :: "addr \<rightharpoonup> ('a, 'r) mjData"
  sims :: "addr \<rightharpoonup> 'a MjAccessBatchedSim"
  next_addr :: addr
  libc_plan :: "bool list"
  makeData_plan :: "bool list"
  uninit :: 'a

subsection \<open>Memory primitives\<close>

text \<open>
  \<^verbatim>\<open>memcpy(dst + doff, src + soff, n * sizeof(double))\<close> on arrays of doubles: a copy
  that leaves either array is undefined behaviour.
\<close>

definition memcpy :: "'a list \<Rightarrow> nat \<Rightarrow> 'a list \<Rightarrow> nat \<Rightarrow> nat \<Rightarrow> fault + 'a list" where
  "memcpy dst doff src soff n =
     (if doff + n \<le> length dst \<and> soff + n \<le> length src
      then Inr (take doff dst @ take n (drop soff src) @ drop (doff + n) dst)
      else Inl OutOfBounds)"

text \<open>The conversion of an \<^verbatim>\<open>int\<close> to the 64-bit \<^verbatim>\<open>size_t\<close>.\<close>

definition size_t_of_int :: "int \<Rightarrow> nat" where
  "size_t_of_int n = nat (n mod 2 ^ 64)"

text \<open>
  The number of doubles that \<^verbatim>\<open>n * sizeof(double)\<close> bytes hold, for an \<^verbatim>\<open>int n\<close>: the
  product is formed in \<^verbatim>\<open>size_t\<close>, so a negative \<open>n\<close> gives a huge count.
\<close>

definition double_count :: "int \<Rightarrow> nat" where
  "double_count n = ((size_t_of_int n * 8) mod 2 ^ 64) div 8"

text \<open>Reading \<^verbatim>\<open>sim->datas[i]\<close>.\<close>

definition datas_at :: "'a MjAccessBatchedSim \<Rightarrow> nat \<Rightarrow> fault + addr option" where
  "datas_at S i =
     (case datas S of
        None \<Rightarrow> Inl NullDeref
      | Some ptrs \<Rightarrow> if i < length ptrs then Inr (ptrs ! i) else Inl OutOfBounds)"

text \<open>Dereferencing an \<^verbatim>\<open>mjData*\<close>.\<close>

definition deref_data :: "('a, 'r, 'p) world \<Rightarrow> addr option \<Rightarrow> fault + (addr \<times> ('a, 'r) mjData)" where
  "deref_data w p =
     (case p of
        None \<Rightarrow> Inl NullDeref
      | Some a \<Rightarrow> (case mjdatas w a of None \<Rightarrow> Inl Dangling | Some d \<Rightarrow> Inr (a, d)))"

text \<open>\<^verbatim>\<open>sim->datas[i]\<close> read and dereferenced.\<close>

definition slot :: "('a, 'r, 'p) world \<Rightarrow> 'a MjAccessBatchedSim \<Rightarrow> nat \<Rightarrow> fault + (addr \<times> ('a, 'r) mjData)" where
  "slot w S i = (case datas_at S i of Inl e \<Rightarrow> Inl e | Inr p \<Rightarrow> deref_data w p)"

subsection \<open>Batched gather\<close>

text \<open>
  The eight instances of the macro \<^verbatim>\<open>BATCHED_GATHER(name, field, per_env_expr, buf_field)\<close>:
  a \<open>gather_field\<close> names an instance, and the three functions below give its \<^verbatim>\<open>field\<close>,
  \<^verbatim>\<open>per_env_expr\<close> and \<^verbatim>\<open>buf_field\<close>.
\<close>

datatype gather_field =
  G_qpos | G_qvel | G_xpos | G_subtree_com | G_cinert | G_cvel | G_qfrc_actuator | G_cfrc_ext

fun data_field :: "gather_field \<Rightarrow> ('a, 'r) mjData \<Rightarrow> 'a list" where
  "data_field G_qpos d = qpos d"
| "data_field G_qvel d = qvel d"
| "data_field G_xpos d = xpos d"
| "data_field G_subtree_com d = subtree_com d"
| "data_field G_cinert d = cinert d"
| "data_field G_cvel d = cvel d"
| "data_field G_qfrc_actuator d = qfrc_actuator d"
| "data_field G_cfrc_ext d = cfrc_ext d"

fun per_env_expr :: "gather_field \<Rightarrow> 'p mjModel \<Rightarrow> nat" where
  "per_env_expr G_qpos m = nq m"
| "per_env_expr G_qvel m = nv m"
| "per_env_expr G_xpos m = nbody m * 3"
| "per_env_expr G_subtree_com m = nbody m * 3"
| "per_env_expr G_cinert m = nbody m * 10"
| "per_env_expr G_cvel m = nbody m * 6"
| "per_env_expr G_qfrc_actuator m = nv m"
| "per_env_expr G_cfrc_ext m = nbody m * 6"

fun buf_field :: "gather_field \<Rightarrow> 'a MjAccessBatchedSim \<Rightarrow> 'a list option" where
  "buf_field G_qpos S = qpos_buf S"
| "buf_field G_qvel S = qvel_buf S"
| "buf_field G_xpos S = xpos_buf S"
| "buf_field G_subtree_com S = subtree_com_buf S"
| "buf_field G_cinert S = cinert_buf S"
| "buf_field G_cvel S = cvel_buf S"
| "buf_field G_qfrc_actuator S = qfrc_actuator_buf S"
| "buf_field G_cfrc_ext S = cfrc_ext_buf S"

text \<open>Storing through the pointer \<^verbatim>\<open>sim->buf_field\<close>: the contents of that buffer change.\<close>

fun buf_field_update :: "gather_field \<Rightarrow> 'a list option \<Rightarrow> 'a MjAccessBatchedSim \<Rightarrow> 'a MjAccessBatchedSim" where
  "buf_field_update G_qpos b S = S\<lparr>qpos_buf := b\<rparr>"
| "buf_field_update G_qvel b S = S\<lparr>qvel_buf := b\<rparr>"
| "buf_field_update G_xpos b S = S\<lparr>xpos_buf := b\<rparr>"
| "buf_field_update G_subtree_com b S = S\<lparr>subtree_com_buf := b\<rparr>"
| "buf_field_update G_cinert b S = S\<lparr>cinert_buf := b\<rparr>"
| "buf_field_update G_cvel b S = S\<lparr>cvel_buf := b\<rparr>"
| "buf_field_update G_qfrc_actuator b S = S\<lparr>qfrc_actuator_buf := b\<rparr>"
| "buf_field_update G_cfrc_ext b S = S\<lparr>cfrc_ext_buf := b\<rparr>"

text \<open>
  The loop \<^verbatim>\<open>for (int i = 0; i < ne; i++) memcpy(buf + i * per_env, sim->datas[i]->field, ...)\<close>,
  over the indices still to do; \<open>buf\<close> is the pointer \<^verbatim>\<open>sim->buf_field\<close>.
\<close>

fun gather_loop ::
  "gather_field \<Rightarrow> nat \<Rightarrow> ('a, 'r, 'p) world \<Rightarrow> 'a MjAccessBatchedSim \<Rightarrow> nat list \<Rightarrow>
     'a list option \<Rightarrow> fault + 'a list option" where
  "gather_loop f per_env w S [] buf = Inr buf"
| "gather_loop f per_env w S (i # is) buf =
     (case slot w S i of
        Inl e \<Rightarrow> Inl e
      | Inr (a, d) \<Rightarrow>
          (case buf of
             None \<Rightarrow> Inl NullDeref
           | Some b \<Rightarrow>
               (case memcpy b (i * per_env) (data_field f d) 0 (double_count (int per_env)) of
                  Inl e \<Rightarrow> Inl e
                | Inr b' \<Rightarrow> gather_loop f per_env w S is (Some b'))))"

text \<open>
  The macro body. \<open>n_out\<close> is the cell \<^verbatim>\<open>int* n_out\<close> points to (\<open>None\<close>: a null pointer);
  the result is the store, the returned pointer (as the buffer it points to) and the cell.
\<close>

definition BATCHED_GATHER ::
  "gather_field \<Rightarrow> ('a, 'r, 'p) world \<Rightarrow> addr option \<Rightarrow> int option \<Rightarrow>
     fault + (('a, 'r, 'p) world \<times> 'a list option \<times> int option)" where
  "BATCHED_GATHER f w sim n_out =
     (case sim of
        None \<Rightarrow> Inr (w, None, map_option (\<lambda>_. 0) n_out)
      | Some s \<Rightarrow>
          (case sims w s of
             None \<Rightarrow> Inl Dangling
           | Some S \<Rightarrow>
               (case mjmodels w (model_ref S) of
                  None \<Rightarrow> Inl Dangling
                | Some m \<Rightarrow>
                    (let ne = num_envs S;
                         per_env = per_env_expr f m;
                         total = ne * int per_env
                     in case gather_loop f per_env w S [0..<nat ne] (buf_field f S) of
                          Inl e \<Rightarrow> Inl e
                        | Inr buf \<Rightarrow>
                            Inr (w\<lparr>sims := (sims w)(s \<mapsto> buf_field_update f buf S)\<rparr>,
                                 buf, map_option (\<lambda>_. total) n_out)))))"

definition mjaccess_batched_get_qpos where
  "mjaccess_batched_get_qpos = BATCHED_GATHER G_qpos"

definition mjaccess_batched_get_qvel where
  "mjaccess_batched_get_qvel = BATCHED_GATHER G_qvel"

definition mjaccess_batched_get_xpos where
  "mjaccess_batched_get_xpos = BATCHED_GATHER G_xpos"

definition mjaccess_batched_get_subtree_com where
  "mjaccess_batched_get_subtree_com = BATCHED_GATHER G_subtree_com"

definition mjaccess_batched_get_cinert where
  "mjaccess_batched_get_cinert = BATCHED_GATHER G_cinert"

definition mjaccess_batched_get_cvel where
  "mjaccess_batched_get_cvel = BATCHED_GATHER G_cvel"

definition mjaccess_batched_get_qfrc_actuator where
  "mjaccess_batched_get_qfrc_actuator = BATCHED_GATHER G_qfrc_actuator"

definition mjaccess_batched_get_cfrc_ext where
  "mjaccess_batched_get_cfrc_ext = BATCHED_GATHER G_cfrc_ext"

subsection \<open>Calls into the engine and the allocator\<close>

text \<open>The outcome of the next allocation of a plan.\<close>

definition next_outcome :: "bool list \<Rightarrow> bool" where
  "next_outcome p = (case p of [] \<Rightarrow> True | b # _ \<Rightarrow> b)"

text \<open>
  \<^verbatim>\<open>mj_makeData(mj)\<close>: a fresh \<^verbatim>\<open>mjData\<close> in the model's default state, or \<^verbatim>\<open>NULL\<close>.
\<close>

definition mj_makeData_call ::
  "('a, 'r, 'p) engine \<Rightarrow> ('a, 'r, 'p) world \<Rightarrow> addr \<Rightarrow> fault + (('a, 'r, 'p) world \<times> addr option)" where
  "mj_makeData_call eng w mj =
     (case mjmodels w mj of
        None \<Rightarrow> Inl Dangling
      | Some m \<Rightarrow>
          if next_outcome (makeData_plan w)
          then Inr (w\<lparr>mjdatas := (mjdatas w)(next_addr w \<mapsto> mj_makeData eng m),
                      next_addr := Suc (next_addr w),
                      makeData_plan := tl (makeData_plan w)\<rparr>, Some (next_addr w))
          else Inr (w\<lparr>makeData_plan := tl (makeData_plan w)\<rparr>, None))"

text \<open>\<^verbatim>\<open>mj_deleteData(d)\<close> for a non-null \<open>d\<close>.\<close>

definition mj_deleteData_call :: "('a, 'r, 'p) world \<Rightarrow> addr \<Rightarrow> fault + ('a, 'r, 'p) world" where
  "mj_deleteData_call w a =
     (case mjdatas w a of
        None \<Rightarrow> Inl Dangling
      | Some _ \<Rightarrow> Inr (w\<lparr>mjdatas := (mjdatas w)(a := None)\<rparr>))"

text \<open>\<^verbatim>\<open>mj_step(m, d)\<close> and \<^verbatim>\<open>mj_resetData(m, d)\<close> for non-null pointers.\<close>

definition mj_step_call ::
  "('a, 'r, 'p) engine \<Rightarrow> ('a, 'r, 'p) world \<Rightarrow> addr \<Rightarrow> addr \<Rightarrow> fault + ('a, 'r, 'p) world" where
  "mj_step_call eng w mj a =
     (case mjmodels w mj of
        None \<Rightarrow> Inl Dangling
      | Some m \<Rightarrow>
          (case mjdatas w a of
             None \<Rightarrow> Inl Dangling
           | Some d \<Rightarrow> Inr (w\<lparr>mjdatas := (mjdatas w)(a \<mapsto> mj_step eng m d)\<rparr>)))"

definition mj_resetData_call ::
  "('a, 'r, 'p) engine \<Rightarrow> ('a, 'r, 'p) world \<Rightarrow> addr \<Rightarrow> addr \<Rightarrow> fault + ('a, 'r, 'p) world" where
  "mj_resetData_call eng w mj a =
     (case mjmodels w mj of
        None \<Rightarrow> Inl Dangling
      | Some m \<Rightarrow>
          (case mjdatas w a of
             None \<Rightarrow> Inl Dangling
           | Some d \<Rightarrow> Inr (w\<lparr>mjdatas := (mjdatas w)(a \<mapsto> mj_resetData eng m d)\<rparr>)))"

text \<open>\<^verbatim>\<open>(double*)malloc(n * sizeof(double))\<close>\<close>

definition malloc_doubles :: "('a, 'r, 'p) world \<Rightarrow> nat \<Rightarrow> ('a, 'r, 'p) world \<times> 'a list option" where
  "malloc_doubles w n =
     (w\<lparr>libc_plan := tl (libc_plan w)\<rparr>,
      if next_outcome (libc_plan w) then Some (replicate n (uninit w)) else None)"

subsection \<open>Pool lifecycle\<close>

text \<open>
  \<^verbatim>\<open>batched_free_buffers\<close> (mjaccess.c, lines 383-392): every gather buffer is freed
  and its pointer set to \<^verbatim>\<open>NULL\<close>.
\<close>

definition batched_free_buffers :: "('a, 'r, 'p) world \<Rightarrow> addr \<Rightarrow> fault + ('a, 'r, 'p) world" where
  "batched_free_buffers w s =
     (case sims w s of
        None \<Rightarrow> Inl Dangling
      | Some S \<Rightarrow>
          Inr (w\<lparr>sims := (sims w)(s \<mapsto>
                 S\<lparr>qpos_buf := None, qvel_buf := None, xpos_buf := None,
                   subtree_com_buf := None, cinert_buf := None, cvel_buf := None,
                   qfrc_actuator_buf := None, cfrc_ext_buf := None\<rparr>)\<rparr>))"

text \<open>
  The loop of \<^verbatim>\<open>mjaccess_batched_free\<close>:
  \<^verbatim>\<open>if (sim->datas[i]) mj_deleteData(sim->datas[i]);\<close>
\<close>

fun free_loop :: "('a, 'r, 'p) world \<Rightarrow> 'a MjAccessBatchedSim \<Rightarrow> nat list \<Rightarrow> fault + ('a, 'r, 'p) world" where
  "free_loop w S [] = Inr w"
| "free_loop w S (i # is) =
     (case datas_at S i of
        Inl e \<Rightarrow> Inl e
      | Inr None \<Rightarrow> free_loop w S is
      | Inr (Some a) \<Rightarrow>
          (case mj_deleteData_call w a of
             Inl e \<Rightarrow> Inl e
           | Inr w' \<Rightarrow> free_loop w' S is))"

text \<open>
  \<^verbatim>\<open>mjaccess_batched_free\<close> (lines 429-439): nothing for a null handle; otherwise the
  slots that are not null are deleted, then the array \<^verbatim>\<open>datas\<close>, the buffers and the
  structure itself are freed. The function does not clear the caller's handle: a second
  call with the same handle reads freed memory.
\<close>

definition mjaccess_batched_free :: "('a, 'r, 'p) world \<Rightarrow> addr option \<Rightarrow> fault + ('a, 'r, 'p) world" where
  "mjaccess_batched_free w sim =
     (case sim of
        None \<Rightarrow> Inr w
      | Some s \<Rightarrow>
          (case sims w s of
             None \<Rightarrow> Inl Dangling
           | Some S \<Rightarrow>
               (case (case datas S of
                        None \<Rightarrow> Inr w
                      | Some _ \<Rightarrow> free_loop w S [0..<nat (num_envs S)]) of
                  Inl e \<Rightarrow> Inl e
                | Inr w1 \<Rightarrow>
                    (case batched_free_buffers w1 s of
                       Inl e \<Rightarrow> Inl e
                     | Inr w2 \<Rightarrow> Inr (w2\<lparr>sims := (sims w2)(s := None)\<rparr>)))))"

text \<open>
  The allocation loop of \<^verbatim>\<open>mjaccess_batched_create\<close>. The result is \<open>False\<close> when the
  function has released the pool and returns \<^verbatim>\<open>NULL\<close>.
\<close>

fun create_loop ::
  "('a, 'r, 'p) engine \<Rightarrow> ('a, 'r, 'p) world \<Rightarrow> addr \<Rightarrow> addr \<Rightarrow> nat list \<Rightarrow>
     fault + (('a, 'r, 'p) world \<times> bool)" where
  "create_loop eng w s mj [] = Inr (w, True)"
| "create_loop eng w s mj (i # is) =
     (case mj_makeData_call eng w mj of
        Inl e \<Rightarrow> Inl e
      | Inr (w1, p) \<Rightarrow>
          (case sims w1 s of
             None \<Rightarrow> Inl Dangling
           | Some S \<Rightarrow>
               (case datas S of
                  None \<Rightarrow> Inl NullDeref
                | Some ptrs \<Rightarrow>
                    if \<not> i < length ptrs then Inl OutOfBounds
                    else
                      (let w2 = w1\<lparr>sims := (sims w1)(s \<mapsto> S\<lparr>datas := Some (ptrs[i := p])\<rparr>)\<rparr>
                       in case p of
                            None \<Rightarrow>
                              (case mjaccess_batched_free w2 (Some s) of
                                 Inl e \<Rightarrow> Inl e
                               | Inr w3 \<Rightarrow> Inr (w3, False))
                          | Some _ \<Rightarrow> create_loop eng w2 s mj is))))"

text \<open>The sizes \<^verbatim>\<open>mjaccess_batched_create\<close> gives to \<^verbatim>\<open>malloc\<close>, in doubles.\<close>

fun buf_alloc_len :: "gather_field \<Rightarrow> int \<Rightarrow> 'p mjModel \<Rightarrow> int" where
  "buf_alloc_len G_qpos ne m = ne * int (nq m)"
| "buf_alloc_len G_qvel ne m = ne * int (nv m)"
| "buf_alloc_len G_xpos ne m = ne * int (nbody m) * 3"
| "buf_alloc_len G_subtree_com ne m = ne * int (nbody m) * 3"
| "buf_alloc_len G_cinert ne m = ne * int (nbody m) * 10"
| "buf_alloc_len G_cvel ne m = ne * int (nbody m) * 6"
| "buf_alloc_len G_qfrc_actuator ne m = ne * int (nv m)"
| "buf_alloc_len G_cfrc_ext ne m = ne * int (nbody m) * 6"

text \<open>The order in which the gather buffers are allocated.\<close>

definition all_fields :: "gather_field list" where
  "all_fields =
     [G_qpos, G_qvel, G_xpos, G_subtree_com, G_cinert, G_cvel, G_qfrc_actuator, G_cfrc_ext]"

text \<open>\<^verbatim>\<open>sim->buf_field = (double*)malloc(...)\<close> for the fields of a list, in order.\<close>

fun alloc_buffers ::
  "('a, 'r, 'p) world \<Rightarrow> addr \<Rightarrow> addr \<Rightarrow> int \<Rightarrow> gather_field list \<Rightarrow> fault + ('a, 'r, 'p) world" where
  "alloc_buffers w s mj ne [] = Inr w"
| "alloc_buffers w s mj ne (f # fs) =
     (case mjmodels w mj of
        None \<Rightarrow> Inl Dangling
      | Some m \<Rightarrow>
          (case malloc_doubles w (double_count (buf_alloc_len f ne m)) of
             (w1, b) \<Rightarrow>
               (case sims w1 s of
                  None \<Rightarrow> Inl Dangling
                | Some S \<Rightarrow>
                    alloc_buffers (w1\<lparr>sims := (sims w1)(s \<mapsto> buf_field_update f b S)\<rparr>) s mj ne fs)))"

text \<open>
  \<^verbatim>\<open>mjaccess_batched_create\<close> (lines 394-427). The two \<^verbatim>\<open>calloc\<close> results are not
  checked by the code: when the first fails the next statement writes through a null
  pointer, when the second fails the loop does. The results of the eight \<^verbatim>\<open>malloc\<close> calls
  are not checked either; a buffer that could not be allocated stays \<^verbatim>\<open>NULL\<close> in the
  pool that is returned.
\<close>

definition mjaccess_batched_create ::
  "('a, 'r, 'p) engine \<Rightarrow> ('a, 'r, 'p) world \<Rightarrow> MjAccessModel option \<Rightarrow>
     MjAccessBatchedConfig option \<Rightarrow> fault + (('a, 'r, 'p) world \<times> addr option)" where
  "mjaccess_batched_create eng w model config =
     (case model of
        None \<Rightarrow> Inr (w, None)
      | Some M \<Rightarrow>
     (case model_mj M of
        None \<Rightarrow> Inr (w, None)
      | Some mj \<Rightarrow>
     (case config of
        None \<Rightarrow> Inr (w, None)
      | Some cfg \<Rightarrow>
          if cfg_num_envs cfg \<le> 0 then Inr (w, None)
          else
            (let ne = cfg_num_envs cfg
             in if \<not> next_outcome (libc_plan w) then Inl NullDeref
                else
                  (let s = next_addr w;
                       sim = \<lparr>model_ref = mj, num_envs = ne,
                              datas = (if next_outcome (tl (libc_plan w))
                                       then Some (replicate (size_t_of_int ne) None) else None),
                              qpos_buf = None, qvel_buf = None, xpos_buf = None,
                              subtree_com_buf = None, cinert_buf = None, cvel_buf = None,
                              qfrc_actuator_buf = None, cfrc_ext_buf = None\<rparr>;
                       w1 = w\<lparr>sims := (sims w)(s \<mapsto> sim), next_addr := Suc s,
                              libc_plan := tl (tl (libc_plan w))\<rparr>
                   in case create_loop eng w1 s mj [0..<nat ne] of
                        Inl e \<Rightarrow> Inl e
                      | Inr (w2, False) \<Rightarrow> Inr (w2, None)
                      | Inr (w2, True) \<Rightarrow>
                          (case mjmodels w2 mj of
                             None \<Rightarrow> Inl Dangling
                           | Some m \<Rightarrow>
                               (let w3 = (if solver_iterations cfg > 0
                                          then w2\<lparr>mjmodels := (mjmodels w2)(mj \<mapsto>
                                                 m\<lparr>opt_iterations := solver_iterations cfg\<rparr>)\<rparr>
                                          else w2)
                                in case alloc_buffers w3 s mj ne all_fields of
                                     Inl e \<Rightarrow> Inl e
                                   | Inr w4 \<Rightarrow> Inr (w4, Some s))))))))"

subsection \<open>Batched step and reset\<close>

text \<open>
  The block \<^verbatim>\<open>dispatch_apply\<close> runs for index \<open>i\<close>:
  \<^verbatim>\<open>mjData* d = sim->datas[i]; memcpy(d->ctrl, ctrl + i * nu, nu * sizeof(double)); mj_step(m, d);\<close>
  The block has captured the pointers \<open>s\<close>, \<open>m\<close> and \<open>cb\<close> and the value \<open>nu\<^sub>0\<close> of \<^verbatim>\<open>nu\<close>.
\<close>

definition step_block ::
  "('a, 'r, 'p) engine \<Rightarrow> addr \<Rightarrow> addr \<Rightarrow> nat \<Rightarrow> 'a list \<Rightarrow> nat \<Rightarrow> ('a, 'r, 'p) world \<Rightarrow>
     fault + ('a, 'r, 'p) world" where
  "step_block eng s m nu\<^sub>0 cb i w =
     (case sims w s of
        None \<Rightarrow> Inl Dangling
      | Some S \<Rightarrow>
          (case slot w S i of
             Inl e \<Rightarrow> Inl e
           | Inr (a, d) \<Rightarrow>
               (case memcpy (ctrl d) 0 cb (i * nu\<^sub>0) (double_count (int nu\<^sub>0)) of
                  Inl e \<Rightarrow> Inl e
                | Inr c \<Rightarrow>
                    mj_step_call eng (w\<lparr>mjdatas := (mjdatas w)(a \<mapsto> d\<lparr>ctrl := c\<rparr>)\<rparr>) m a)))"

text \<open>
  \<^verbatim>\<open>dispatch_apply(n, queue, block)\<close> runs the block once for every index below \<open>n\<close>, in
  parallel, and returns when all have finished. The blocks of the shim work on different
  \<^verbatim>\<open>mjData\<close>, so a run is a run of the blocks one after the other in some order. The
  order the queue happens to choose is given by \<open>sched\<close>: the indices \<open>sched\<close> lists run
  first, in that order, then the others; every permutation of the indices is the order of
  some \<open>sched\<close>.
\<close>

definition run_order :: "nat \<Rightarrow> nat list \<Rightarrow> nat list" where
  "run_order n sched =
     filter (\<lambda>i. i < n) (remdups sched) @ filter (\<lambda>i. i \<notin> set sched) [0..<n]"

fun run_blocks :: "(nat \<Rightarrow> 'w \<Rightarrow> fault + 'w) \<Rightarrow> nat list \<Rightarrow> 'w \<Rightarrow> fault + 'w" where
  "run_blocks block [] w = Inr w"
| "run_blocks block (i # is) w =
     (case block i w of Inl e \<Rightarrow> Inl e | Inr w' \<Rightarrow> run_blocks block is w')"

definition dispatch_apply ::
  "nat \<Rightarrow> nat list \<Rightarrow> (nat \<Rightarrow> 'w \<Rightarrow> fault + 'w) \<Rightarrow> 'w \<Rightarrow> fault + 'w" where
  "dispatch_apply n sched block w = run_blocks block (run_order n sched) w"

text \<open>
  \<^verbatim>\<open>mjaccess_batched_step\<close> (lines 441-455): nothing for a null pool or a null control
  buffer; otherwise \<^verbatim>\<open>nu\<close> is read from the model and the blocks are dispatched.
\<close>

definition mjaccess_batched_step ::
  "('a, 'r, 'p) engine \<Rightarrow> nat list \<Rightarrow> ('a, 'r, 'p) world \<Rightarrow> addr option \<Rightarrow> 'a list option \<Rightarrow>
     fault + ('a, 'r, 'p) world" where
  "mjaccess_batched_step eng sched w sim ctrl_buf =
     (case sim of
        None \<Rightarrow> Inr w
      | Some s \<Rightarrow>
     (case ctrl_buf of
        None \<Rightarrow> Inr w
      | Some cb \<Rightarrow>
     (case sims w s of
        None \<Rightarrow> Inl Dangling
      | Some S \<Rightarrow>
     (case mjmodels w (model_ref S) of
        None \<Rightarrow> Inl Dangling
      | Some m \<Rightarrow>
          dispatch_apply (size_t_of_int (num_envs S)) sched
            (step_block eng s (model_ref S) (nu m) cb) w))))"

text \<open>
  The loop of \<^verbatim>\<open>mjaccess_batched_reset\<close>:
  \<^verbatim>\<open>if (reset_mask[i]) mj_resetData(m, sim->datas[i]);\<close>
\<close>

fun reset_loop ::
  "('a, 'r, 'p) engine \<Rightarrow> 'a MjAccessBatchedSim \<Rightarrow> int list \<Rightarrow> nat list \<Rightarrow> ('a, 'r, 'p) world \<Rightarrow>
     fault + ('a, 'r, 'p) world" where
  "reset_loop eng S msk [] w = Inr w"
| "reset_loop eng S msk (i # is) w =
     (if \<not> i < length msk then Inl OutOfBounds
      else if msk ! i \<noteq> 0
      then (case datas_at S i of
              Inl e \<Rightarrow> Inl e
            | Inr None \<Rightarrow> Inl NullDeref
            | Inr (Some a) \<Rightarrow>
                (case mj_resetData_call eng w (model_ref S) a of
                   Inl e \<Rightarrow> Inl e
                 | Inr w' \<Rightarrow> reset_loop eng S msk is w'))
      else reset_loop eng S msk is w)"

text \<open>\<^verbatim>\<open>mjaccess_batched_reset\<close> (lines 457-463).\<close>

definition mjaccess_batched_reset ::
  "('a, 'r, 'p) engine \<Rightarrow> ('a, 'r, 'p) world \<Rightarrow> addr option \<Rightarrow> int list option \<Rightarrow>
     fault + ('a, 'r, 'p) world" where
  "mjaccess_batched_reset eng w sim reset_mask =
     (case sim of
        None \<Rightarrow> Inr w
      | Some s \<Rightarrow>
     (case reset_mask of
        None \<Rightarrow> Inr w
      | Some msk \<Rightarrow>
     (case sims w s of
        None \<Rightarrow> Inl Dangling
      | Some S \<Rightarrow> reset_loop eng S msk [0..<nat (num_envs S)] w)))"

subsection \<open>Per-environment setters\<close>

text \<open>
  \<^verbatim>\<open>mjaccess_batched_set_env_qpos\<close> and \<^verbatim>\<open>mjaccess_batched_set_env_qvel\<close> (lines 490-500):
  \<^verbatim>\<open>if (!sim || !qpos || env_idx < 0 || env_idx >= sim->num_envs) return;\<close>
  \<^verbatim>\<open>memcpy(sim->datas[env_idx]->qpos, qpos, nq * sizeof(double));\<close>
  The count is the caller's, neither compared with the length of the field nor with 0.
\<close>

definition mjaccess_batched_set_env_qpos ::
  "('a, 'r, 'p) world \<Rightarrow> addr option \<Rightarrow> int \<Rightarrow> 'a list option \<Rightarrow> int \<Rightarrow> fault + ('a, 'r, 'p) world" where
  "mjaccess_batched_set_env_qpos w sim env_idx qpos_arg nq_arg =
     (case sim of
        None \<Rightarrow> Inr w
      | Some s \<Rightarrow>
     (case qpos_arg of
        None \<Rightarrow> Inr w
      | Some vals \<Rightarrow>
          if env_idx < 0 then Inr w
          else
            (case sims w s of
               None \<Rightarrow> Inl Dangling
             | Some S \<Rightarrow>
                 if env_idx \<ge> num_envs S then Inr w
                 else
                   (case slot w S (nat env_idx) of
                      Inl e \<Rightarrow> Inl e
                    | Inr (a, d) \<Rightarrow>
                        (case memcpy (qpos d) 0 vals 0 (double_count nq_arg) of
                           Inl e \<Rightarrow> Inl e
                         | Inr q \<Rightarrow> Inr (w\<lparr>mjdatas := (mjdatas w)(a \<mapsto> d\<lparr>qpos := q\<rparr>)\<rparr>))))))"

definition mjaccess_batched_set_env_qvel ::
  "('a, 'r, 'p) world \<Rightarrow> addr option \<Rightarrow> int \<Rightarrow> 'a list option \<Rightarrow> int \<Rightarrow> fault + ('a, 'r, 'p) world" where
  "mjaccess_batched_set_env_qvel w sim env_idx qvel_arg nv_arg =
     (case sim of
        None \<Rightarrow> Inr w
      | Some s \<Rightarrow>
     (case qvel_arg of
        None \<Rightarrow> Inr w
      | Some vals \<Rightarrow>
          if env_idx < 0 then Inr w
          else
            (case sims w s of
               None \<Rightarrow> Inl Dangling
             | Some S \<Rightarrow>
                 if env_idx \<ge> num_envs S then Inr w
                 else
                   (case slot w S (nat env_idx) of
                      Inl e \<Rightarrow> Inl e
                    | Inr (a, d) \<Rightarrow>
                        (case memcpy (qvel d) 0 vals 0 (double_count nv_arg) of
                           Inl e \<Rightarrow> Inl e
                         | Inr q \<Rightarrow> Inr (w\<lparr>mjdatas := (mjdatas w)(a \<mapsto> d\<lparr>qvel := q\<rparr>)\<rparr>))))))"

subsection \<open>The single-environment functions the batch is compared with\<close>

text \<open>
  \<^verbatim>\<open>mjaccess_set_ctrl\<close> (lines 254-257) and \<^verbatim>\<open>mjaccess_step\<close> (lines 218-220).
\<close>

definition mjaccess_set_ctrl ::
  "('a, 'r, 'p) world \<Rightarrow> MjAccessData option \<Rightarrow> 'a list option \<Rightarrow> int \<Rightarrow> fault + ('a, 'r, 'p) world" where
  "mjaccess_set_ctrl w data ctrl_arg n =
     (case data of
        None \<Rightarrow> Inr w
      | Some D \<Rightarrow>
     (case data_mj D of
        None \<Rightarrow> Inr w
      | Some a \<Rightarrow>
     (case ctrl_arg of
        None \<Rightarrow> Inr w
      | Some vals \<Rightarrow>
          if n \<le> 0 then Inr w
          else
            (case mjdatas w a of
               None \<Rightarrow> Inl Dangling
             | Some d \<Rightarrow>
                 (case memcpy (ctrl d) 0 vals 0 (double_count n) of
                    Inl e \<Rightarrow> Inl e
                  | Inr c \<Rightarrow> Inr (w\<lparr>mjdatas := (mjdatas w)(a \<mapsto> d\<lparr>ctrl := c\<rparr>)\<rparr>))))))"

definition mjaccess_step ::
  "('a, 'r, 'p) engine \<Rightarrow> ('a, 'r, 'p) world \<Rightarrow> MjAccessModel option \<Rightarrow> MjAccessData option \<Rightarrow>
     fault + ('a, 'r, 'p) world" where
  "mjaccess_step eng w model data =
     (case model of
        None \<Rightarrow> Inr w
      | Some M \<Rightarrow>
     (case model_mj M of
        None \<Rightarrow> Inr w
      | Some mj \<Rightarrow>
     (case data of
        None \<Rightarrow> Inr w
      | Some D \<Rightarrow>
     (case data_mj D of
        None \<Rightarrow> Inr w
      | Some a \<Rightarrow> mj_step_call eng w mj a))))"

subsection \<open>Pools and their slots\<close>

text \<open>The state of slot \<open>i\<close> of the pool at \<open>s\<close>, when there is one.\<close>

definition slot_state :: "('a, 'r, 'p) world \<Rightarrow> addr \<Rightarrow> nat \<Rightarrow> ('a, 'r) mjData option" where
  "slot_state w s i =
     (case sims w s of
        None \<Rightarrow> None
      | Some S \<Rightarrow> (case slot w S i of Inl _ \<Rightarrow> None | Inr (a, d) \<Rightarrow> Some d))"

text \<open>The address of slot \<open>i\<close>.\<close>

definition slot_addr :: "('a, 'r, 'p) world \<Rightarrow> addr \<Rightarrow> nat \<Rightarrow> addr option" where
  "slot_addr w s i =
     (case sims w s of
        None \<Rightarrow> None
      | Some S \<Rightarrow> (case slot w S i of Inl _ \<Rightarrow> None | Inr (a, d) \<Rightarrow> Some a))"

text \<open>The arrays of an \<^verbatim>\<open>mjData\<close> have the sizes its model gives them.\<close>

definition slot_ok :: "'p mjModel \<Rightarrow> ('a, 'r) mjData \<Rightarrow> bool" where
  "slot_ok m d \<longleftrightarrow>
     length (ctrl d) = nu m \<and>
     list_all (\<lambda>f. length (data_field f d) = per_env_expr f m) all_fields"

definition INT_MAX :: int where
  "INT_MAX = 2 ^ 31 - 1"

text \<open>
  A pool as \<^verbatim>\<open>mjaccess_batched_create\<close> returns it when every allocation has succeeded:
  a live model, \<^verbatim>\<open>num_envs\<close> different live slots of the model's sizes, and gather
  buffers of the allocated sizes, all sizes within the range of \<^verbatim>\<open>int\<close>.
\<close>

definition pool_ok :: "('a, 'r, 'p) world \<Rightarrow> addr \<Rightarrow> bool" where
  "pool_ok w s \<longleftrightarrow>
     (case sims w s of
        None \<Rightarrow> False
      | Some S \<Rightarrow>
     (case mjmodels w (model_ref S) of
        None \<Rightarrow> False
      | Some m \<Rightarrow>
     (case datas S of
        None \<Rightarrow> False
      | Some ptrs \<Rightarrow>
          0 < num_envs S \<and> length ptrs = nat (num_envs S) \<and> distinct ptrs \<and>
          list_all (\<lambda>p. case deref_data w p of Inl _ \<Rightarrow> False | Inr (a, d) \<Rightarrow> slot_ok m d) ptrs \<and>
          list_all (\<lambda>f. case buf_field f S of
                          None \<Rightarrow> False
                        | Some b \<Rightarrow> int (length b) = num_envs S * int (per_env_expr f m) \<and>
                                    num_envs S * int (per_env_expr f m) \<le> INT_MAX) all_fields \<and>
          num_envs S \<le> INT_MAX \<and> int (nu m) \<le> INT_MAX)))"

text \<open>The number of environments and the model of the pool at \<open>s\<close>.\<close>

definition pool_size :: "('a, 'r, 'p) world \<Rightarrow> addr \<Rightarrow> nat" where
  "pool_size w s = (case sims w s of None \<Rightarrow> 0 | Some S \<Rightarrow> nat (num_envs S))"

definition pool_model :: "('a, 'r, 'p) world \<Rightarrow> addr \<Rightarrow> 'p mjModel option" where
  "pool_model w s = (case sims w s of None \<Rightarrow> None | Some S \<Rightarrow> mjmodels w (model_ref S))"

text \<open>The slice \<^verbatim>\<open>controls[i*nu : i*nu+nu]\<close> of a flat buffer.\<close>

definition slice :: "'a list \<Rightarrow> nat \<Rightarrow> nat \<Rightarrow> 'a list" where
  "slice xs i n = take n (drop (i * n) xs)"

subsection \<open>N independent single-environment steps\<close>

text \<open>
  The reference the batched step is compared with: for the slots in index order, the
  host sets the controls of the slot with \<^verbatim>\<open>mjaccess_set_ctrl\<close> to its slice and steps
  it with \<^verbatim>\<open>mjaccess_step\<close>, holding each slot as an \<^verbatim>\<open>MjAccessData\<close>.
\<close>

fun single_steps ::
  "('a, 'r, 'p) engine \<Rightarrow> addr \<Rightarrow> nat \<Rightarrow> 'a list \<Rightarrow> (nat \<times> addr option) list \<Rightarrow>
     ('a, 'r, 'p) world \<Rightarrow> fault + ('a, 'r, 'p) world" where
  "single_steps eng mj n cb [] w = Inr w"
| "single_steps eng mj n cb ((i, p) # rest) w =
     (case mjaccess_set_ctrl w (Some \<lparr>data_mj = p, data_model_ref = mj\<rparr>)
             (Some (slice cb i n)) (int n) of
        Inl e \<Rightarrow> Inl e
      | Inr w1 \<Rightarrow>
          (case mjaccess_step eng w1 (Some \<lparr>model_mj = Some mj\<rparr>)
                  (Some \<lparr>data_mj = p, data_model_ref = mj\<rparr>) of
             Inl e \<Rightarrow> Inl e
           | Inr w2 \<Rightarrow> single_steps eng mj n cb rest w2))"

definition independent_steps ::
  "('a, 'r, 'p) engine \<Rightarrow> ('a, 'r, 'p) world \<Rightarrow> addr \<Rightarrow> 'a list \<Rightarrow> fault + ('a, 'r, 'p) world" where
  "independent_steps eng w s cb =
     (case sims w s of
        None \<Rightarrow> Inl Dangling
      | Some S \<Rightarrow>
     (case mjmodels w (model_ref S) of
        None \<Rightarrow> Inl Dangling
      | Some m \<Rightarrow>
     (case datas S of
        None \<Rightarrow> Inl NullDeref
      | Some ptrs \<Rightarrow> single_steps eng (model_ref S) (nu m) cb (zip [0..<length ptrs] ptrs) w)))"

subsection \<open>Auxiliary notions for the proofs\<close>

text \<open>What one block of the batched step does to the store of \<^verbatim>\<open>mjData\<close>.\<close>

definition slot_step ::
  "('a, 'r, 'p) engine \<Rightarrow> 'p mjModel \<Rightarrow> 'a list \<Rightarrow> nat \<Rightarrow> addr option list \<Rightarrow> nat \<Rightarrow>
     (addr \<rightharpoonup> ('a, 'r) mjData) \<Rightarrow> (addr \<rightharpoonup> ('a, 'r) mjData)" where
  "slot_step eng m cb n ptrs i h =
     (case ptrs ! i of
        None \<Rightarrow> h
      | Some a \<Rightarrow>
          (case h a of
             None \<Rightarrow> h
           | Some d \<Rightarrow> h(a \<mapsto> mj_step eng m (d\<lparr>ctrl := slice cb i n\<rparr>))))"

text \<open>Block \<open>i\<close> can run: its slot is live, and its slice lies in the control buffer.\<close>

definition runnable ::
  "addr option list \<Rightarrow> nat \<Rightarrow> 'a list \<Rightarrow> (addr \<rightharpoonup> ('a, 'r) mjData) \<Rightarrow> nat \<Rightarrow> bool" where
  "runnable ptrs n cb h i \<longleftrightarrow>
     i < length ptrs \<and> i * n + n \<le> length cb \<and>
     (case ptrs ! i of
        None \<Rightarrow> False
      | Some a \<Rightarrow> (case h a of None \<Rightarrow> False | Some d \<Rightarrow> length (ctrl d) = n))"

text \<open>The values of a field in slot \<open>i\<close> of the pool at \<open>s\<close>.\<close>

definition pool_field :: "gather_field \<Rightarrow> ('a, 'r, 'p) world \<Rightarrow> addr \<Rightarrow> nat \<Rightarrow> 'a list" where
  "pool_field f w s i = (case slot_state w s i of None \<Rightarrow> [] | Some d \<Rightarrow> data_field f d)"

text \<open>The same, read through the pool structure \<open>S\<close>.\<close>

definition slot_field :: "gather_field \<Rightarrow> ('a, 'r, 'p) world \<Rightarrow> 'a MjAccessBatchedSim \<Rightarrow> nat \<Rightarrow> 'a list" where
  "slot_field f w S i = (case slot w S i of Inl _ \<Rightarrow> [] | Inr (a, d) \<Rightarrow> data_field f d)"

text \<open>What a call returns besides the store, when it does not fault.\<close>

definition returned :: "fault + ('w \<times> 'b) \<Rightarrow> 'b option" where
  "returned r = (case r of Inl _ \<Rightarrow> None | Inr (w, x) \<Rightarrow> Some x)"

text \<open>
  Two calls of \<^verbatim>\<open>mjaccess_batched_free\<close> in a row with the same handle: the function
  takes the pointer by value, so after the first call the caller still holds the handle
  it passed.
\<close>

definition free_twice :: "('a, 'r, 'p) world \<Rightarrow> addr option \<Rightarrow> fault + ('a, 'r, 'p) world" where
  "free_twice w sim =
     (case mjaccess_batched_free w sim of
        Inl e \<Rightarrow> Inl e
      | Inr w' \<Rightarrow> mjaccess_batched_free w' sim)"

text \<open>A sequence of batched steps, each with its control buffer and its run order.\<close>

fun batched_steps ::
  "('a, 'r, 'p) engine \<Rightarrow> ('a, 'r, 'p) world \<Rightarrow> addr option \<Rightarrow> (nat list \<times> 'a list) list \<Rightarrow>
     fault + ('a, 'r, 'p) world" where
  "batched_steps eng w sim [] = Inr w"
| "batched_steps eng w sim ((sched, cb) # rest) =
     (case mjaccess_batched_step eng sched w sim (Some cb) of
        Inl e \<Rightarrow> Inl e
      | Inr w' \<Rightarrow> batched_steps eng w' sim rest)"

text \<open>
  A flat control buffer for \<open>N\<close> environments of \<open>n\<close> controls each in which every
  environment gets the same slice.
\<close>

definition uniform_controls :: "nat \<Rightarrow> nat \<Rightarrow> 'a list \<Rightarrow> bool" where
  "uniform_controls N n cb \<longleftrightarrow>
     length cb = N * n \<and> list_all (\<lambda>i. slice cb i n = slice cb 0 n) [0..<N]"

text \<open>No allocation has returned an address from \<open>next_addr\<close> on.\<close>

definition heap_ok :: "('a, 'r, 'p) world \<Rightarrow> bool" where
  "heap_ok w \<longleftrightarrow> (\<forall>a\<ge>next_addr w. mjdatas w a = None \<and> sims w a = None)"

text \<open>The store of \<^verbatim>\<open>mjData\<close> without those a list of pointers refers to.\<close>

definition without_slots :: "addr option list \<Rightarrow> (addr \<rightharpoonup> 'd) \<Rightarrow> (addr \<rightharpoonup> 'd)" where
  "without_slots ps h = (\<lambda>b. if Some b \<in> set ps then None else h b)"

text \<open>
  The state of \<^verbatim>\<open>mjaccess_batched_create\<close> at the head of its allocation loop, before
  index \<open>i\<close>: the pool at \<open>s\<close> has \<open>N\<close> entries, the first \<open>i\<close> of them different live
  \<^verbatim>\<open>mjData\<close> and the others null.
\<close>

definition create_inv ::
  "('a, 'r, 'p) world \<Rightarrow> addr \<Rightarrow> addr \<Rightarrow> nat \<Rightarrow> nat \<Rightarrow> addr option list \<Rightarrow> bool" where
  "create_inv w s mj N i ptrs \<longleftrightarrow>
     (\<exists>S. sims w s = Some S \<and> datas S = Some ptrs \<and> num_envs S = int N \<and> model_ref S = mj) \<and>
     length ptrs = N \<and> i \<le> N \<and>
     (\<forall>j<i. \<exists>a. ptrs ! j = Some a \<and> a < next_addr w \<and> mjdatas w a \<noteq> None) \<and>
     (\<forall>j. i \<le> j \<and> j < N \<longrightarrow> ptrs ! j = None) \<and>
     distinct (take i ptrs) \<and> heap_ok w \<and> s < next_addr w \<and> mjmodels w mj \<noteq> None"

subsection \<open>A small instance\<close>

text \<open>
  A model with two positions, two velocities, one control and one body; an engine whose
  step adds the controls to the velocities and the velocities to the positions; and a
  store with a pool of two environments in different states.
\<close>

definition ex_model :: "unit mjModel" where
  "ex_model = \<lparr>nq = 2, nv = 2, nu = 1, nbody = 1, opt_iterations = 100, params = ()\<rparr>"

definition ex_default :: "'p mjModel \<Rightarrow> (int, nat) mjData" where
  "ex_default m =
     \<lparr>qpos = replicate (nq m) 0, qvel = replicate (nv m) 0, ctrl = replicate (nu m) 0,
      xpos = replicate (nbody m * 3) 0, subtree_com = replicate (nbody m * 3) 0,
      cinert = replicate (nbody m * 10) 0, cvel = replicate (nbody m * 6) 0,
      qfrc_actuator = replicate (nv m) 0, cfrc_ext = replicate (nbody m * 6) 0,
      internal = 0\<rparr>"

definition ex_step :: "'p mjModel \<Rightarrow> (int, nat) mjData \<Rightarrow> (int, nat) mjData" where
  "ex_step m d =
     d\<lparr>qvel := map (\<lambda>v. v + sum_list (ctrl d)) (qvel d),
       qpos := map2 (+) (qpos d) (qvel d),
       internal := Suc (internal d)\<rparr>"

definition ex_engine :: "(int, nat, unit) engine" where
  "ex_engine = \<lparr>mj_makeData = ex_default, mj_step = ex_step, mj_resetData = (\<lambda>m d. ex_default m)\<rparr>"

definition ex_sim :: "int MjAccessBatchedSim" where
  "ex_sim =
     \<lparr>model_ref = 0, num_envs = 2, datas = Some [Some 2, Some 3],
      qpos_buf = Some [9, 9, 9, 9], qvel_buf = Some [9, 9, 9, 9],
      xpos_buf = Some (replicate 6 9), subtree_com_buf = Some (replicate 6 9),
      cinert_buf = Some (replicate 20 9), cvel_buf = Some (replicate 12 9),
      qfrc_actuator_buf = Some [9, 9, 9, 9], cfrc_ext_buf = Some (replicate 12 9)\<rparr>"

definition ex_world :: "(int, nat, unit) world" where
  "ex_world =
     \<lparr>mjmodels = [0 \<mapsto> ex_model],
      mjdatas = [2 \<mapsto> (ex_default ex_model)\<lparr>qpos := [1, 2], qvel := [3, 4],
                                               qfrc_actuator := [11, 12]\<rparr>,
                 3 \<mapsto> (ex_default ex_model)\<lparr>qpos := [5, 6], qvel := [7, 8],
                                               qfrc_actuator := [13, 14], internal := 1\<rparr>],
      sims = [4 \<mapsto> ex_sim],
      next_addr = 5, libc_plan = [], makeData_plan = [], uninit = 0\<rparr>"

text \<open>The same pool with both environments in the same state.\<close>

definition ex_twin :: "(int, nat, unit) world" where
  "ex_twin =
     ex_world\<lparr>mjdatas := [2 \<mapsto> (ex_default ex_model)\<lparr>qpos := [1, 2], qvel := [3, 4]\<rparr>,
                           3 \<mapsto> (ex_default ex_model)\<lparr>qpos := [1, 2], qvel := [3, 4]\<rparr>]\<rparr>"

text \<open>A store with the model only, before any pool is created.\<close>

definition ex_empty :: "(int, nat, unit) world" where
  "ex_empty =
     \<lparr>mjmodels = [0 \<mapsto> ex_model], mjdatas = Map.empty, sims = Map.empty,
      next_addr = 4, libc_plan = [], makeData_plan = [], uninit = 0\<rparr>"

section \<open>Properties\<close>

lemma double_count_int: "n < 2 ^ 61 \<Longrightarrow> double_count (int n) = n"
proof -
  assume a: "n < 2 ^ 61"
  have "int n mod 2 ^ 64 = int n" using a by simp
  hence s: "size_t_of_int (int n) = n" by (simp add: size_t_of_int_def)
  have "n * 8 < 2 ^ 64" using a by simp
  thus ?thesis by (simp add: double_count_def s)
qed

lemma memcpy_whole:
  "length dst = n \<Longrightarrow> soff + n \<le> length src \<Longrightarrow> memcpy dst 0 src soff n = Inr (take n (drop soff src))"
  by (simp add: memcpy_def)

lemma step_block_ok:
  assumes "sims w s = Some S" "mjmodels w mj = Some m" "datas S = Some ptrs"
    and "i < length ptrs" "ptrs ! i = Some a" "mjdatas w a = Some d"
    and "length (ctrl d) = n" "i * n + n \<le> length cb" "n < 2 ^ 61"
  shows "step_block eng s mj n cb i w = Inr (w\<lparr>mjdatas := slot_step eng m cb n ptrs i (mjdatas w)\<rparr>)"
  using assms
  by (simp add: step_block_def slot_def datas_at_def deref_data_def double_count_int memcpy_whole
      mj_step_call_def slot_step_def slice_def)

lemma single_step_ok:
  assumes "mjmodels w mj = Some m"
    and "ptrs ! i = Some a" "mjdatas w a = Some d"
    and "length (ctrl d) = n" "i * n + n \<le> length cb" "n < 2 ^ 61"
  shows "single_steps eng mj n cb ((i, ptrs ! i) # rest) w
         = single_steps eng mj n cb rest (w\<lparr>mjdatas := slot_step eng m cb n ptrs i (mjdatas w)\<rparr>)"
proof (cases "n = 0")
  case True
  with assms have "ctrl d = []" by simp
  hence "d\<lparr>ctrl := []\<rparr> = d" by (cases d) simp
  hence "mj_step eng m (d\<lparr>ctrl := []\<rparr>) = mj_step eng m d" by (rule arg_cong)
  with True assms show ?thesis
    by (simp add: mjaccess_set_ctrl_def mjaccess_step_def mj_step_call_def slot_step_def slice_def)
next
  case False
  with assms show ?thesis
    by (simp add: mjaccess_set_ctrl_def mjaccess_step_def mj_step_call_def slot_step_def slice_def
        double_count_int memcpy_def)
qed


lemma slot_step_frame:
  "ptrs ! i = Some a \<Longrightarrow> b \<noteq> a \<Longrightarrow> slot_step eng m cb n ptrs i h b = h b"
  by (simp add: slot_step_def split: option.splits)

lemma slot_step_commute:
  assumes "ptrs ! i \<noteq> ptrs ! j"
  shows "slot_step eng m cb n ptrs i (slot_step eng m cb n ptrs j h)
         = slot_step eng m cb n ptrs j (slot_step eng m cb n ptrs i h)"
  using assms by (auto simp: slot_step_def fun_upd_twist split: option.splits)

lemma runnable_after:
  assumes "runnable ptrs n cb h j" "ptrs ! i \<noteq> ptrs ! j"
  shows "runnable ptrs n cb (slot_step eng m cb n ptrs i h) j"
  using assms by (auto simp: runnable_def slot_step_def split: option.splits)

lemma dispatch_fold:
  assumes "sims w s = Some S" "mjmodels w mj = Some m" "datas S = Some ptrs" "n < 2 ^ 61"
    and "distinct (map ((!) ptrs) js)" "\<forall>j\<in>set js. runnable ptrs n cb (mjdatas w) j"
  shows "run_blocks (step_block eng s mj n cb) js w
         = Inr (w\<lparr>mjdatas := fold (slot_step eng m cb n ptrs) js (mjdatas w)\<rparr>)"
  using assms
proof (induction js arbitrary: w)
  case Nil
  then show ?case by simp
next
  case (Cons i js)
  from Cons.prems have r: "runnable ptrs n cb (mjdatas w) i" by simp
  then obtain a d where ad: "i < length ptrs" "ptrs ! i = Some a" "mjdatas w a = Some d"
      "length (ctrl d) = n" "i * n + n \<le> length cb"
    by (auto simp: runnable_def split: option.splits)
  let ?w = "w\<lparr>mjdatas := slot_step eng m cb n ptrs i (mjdatas w)\<rparr>"
  have b: "step_block eng s mj n cb i w = Inr ?w"
    using step_block_ok[OF Cons.prems(1,2,3) ad(1,2,3,4,5) Cons.prems(4)] .
  have "\<forall>j\<in>set js. runnable ptrs n cb (mjdatas ?w) j"
    using Cons.prems(5,6) by (auto intro!: runnable_after)
  with Cons.IH[of ?w] Cons.prems have
    "run_blocks (step_block eng s mj n cb) js ?w
       = Inr (?w\<lparr>mjdatas := fold (slot_step eng m cb n ptrs) js (mjdatas ?w)\<rparr>)"
    by simp
  with b show ?case by simp
qed

lemma single_fold:
  assumes "mjmodels w mj = Some m" "n < 2 ^ 61"
    and "distinct (map ((!) ptrs) js)" "\<forall>j\<in>set js. runnable ptrs n cb (mjdatas w) j"
  shows "single_steps eng mj n cb (map (\<lambda>j. (j, ptrs ! j)) js) w
         = Inr (w\<lparr>mjdatas := fold (slot_step eng m cb n ptrs) js (mjdatas w)\<rparr>)"
  using assms
proof (induction js arbitrary: w)
  case Nil
  then show ?case by simp
next
  case (Cons i js)
  from Cons.prems have r: "runnable ptrs n cb (mjdatas w) i" by simp
  then obtain a d where ad: "ptrs ! i = Some a" "mjdatas w a = Some d"
      "length (ctrl d) = n" "i * n + n \<le> length cb"
    by (auto simp: runnable_def split: option.splits)
  let ?w = "w\<lparr>mjdatas := slot_step eng m cb n ptrs i (mjdatas w)\<rparr>"
  have b: "single_steps eng mj n cb ((i, ptrs ! i) # map (\<lambda>j. (j, ptrs ! j)) js) w
           = single_steps eng mj n cb (map (\<lambda>j. (j, ptrs ! j)) js) ?w"
    using single_step_ok[OF Cons.prems(1) ad Cons.prems(2)] .
  have "\<forall>j\<in>set js. runnable ptrs n cb (mjdatas ?w) j"
    using Cons.prems(3,4) by (auto intro!: runnable_after)
  with Cons.IH[of ?w] Cons.prems have
    "single_steps eng mj n cb (map (\<lambda>j. (j, ptrs ! j)) js) ?w
       = Inr (?w\<lparr>mjdatas := fold (slot_step eng m cb n ptrs) js (mjdatas ?w)\<rparr>)"
    by simp
  with b show ?case by simp
qed

lemma fold_slot_step_perm:
  assumes "distinct (map ((!) ptrs) js)" "mset js = mset ks"
  shows "fold (slot_step eng m cb n ptrs) js = fold (slot_step eng m cb n ptrs) ks"
proof (rule fold_multiset_equiv)
  show "mset js = mset ks" by fact
next
  fix x y assume "x \<in> set js" "y \<in> set js"
  show "slot_step eng m cb n ptrs x \<circ> slot_step eng m cb n ptrs y
        = slot_step eng m cb n ptrs y \<circ> slot_step eng m cb n ptrs x"
  proof (cases "ptrs ! x = ptrs ! y")
    case True
    with assms(1) \<open>x \<in> set js\<close> \<open>y \<in> set js\<close> have "x = y"
      by (metis distinct_map inj_on_def)
    then show ?thesis by simp
  next
    case False
    then show ?thesis by (auto simp: fun_eq_iff slot_step_commute)
  qed
qed

lemma fold_slot_step_other:
  assumes "Some b \<notin> (!) ptrs ` set js"
  shows "fold (slot_step eng m cb n ptrs) js h b = h b"
  using assms
proof (induction js arbitrary: h)
  case Nil
  then show ?case by simp
next
  case (Cons i js)
  then show ?case by (auto simp: slot_step_def split: option.splits)
qed

lemma fold_slot_step_at:
  assumes "distinct (map ((!) ptrs) js)" "i \<in> set js" "ptrs ! i = Some a" "h a = Some d"
  shows "fold (slot_step eng m cb n ptrs) js h a = Some (mj_step eng m (d\<lparr>ctrl := slice cb i n\<rparr>))"
  using assms
proof (induction js arbitrary: h)
  case Nil
  then show ?case by simp
next
  case (Cons j js)
  show ?case
  proof (cases "j = i")
    case True
    with Cons.prems have "Some a \<notin> (!) ptrs ` set js" by auto
    hence "fold (slot_step eng m cb n ptrs) js (slot_step eng m cb n ptrs i h) a
           = slot_step eng m cb n ptrs i h a"
      by (rule fold_slot_step_other)
    moreover have "slot_step eng m cb n ptrs i h a
                   = Some (mj_step eng m (d\<lparr>ctrl := slice cb i n\<rparr>))"
      using Cons.prems by (simp add: slot_step_def)
    ultimately show ?thesis using True by simp
  next
    case False
    with Cons.prems have i: "i \<in> set js" by auto
    with Cons.prems have ne: "ptrs ! j \<noteq> Some a" by (metis distinct.simps(2) image_eqI list.simps(9) set_map)
    hence "slot_step eng m cb n ptrs j h a = Some d"
      using Cons.prems by (auto simp: slot_step_def split: option.splits)
    with Cons.IH[of "slot_step eng m cb n ptrs j h"] Cons.prems i show ?thesis by simp
  qed
qed


lemma run_order_perm: "mset (run_order n sched) = mset [0..<n]"
proof -
  have d: "distinct (run_order n sched)"
    by (auto simp: run_order_def)
  have "set (run_order n sched) = set [0..<n]"
    by (auto simp: run_order_def)
  with d show ?thesis
    by (metis distinct_upt set_eq_iff_mset_eq_distinct)
qed

lemma all_fields_UNIV: "f \<in> set all_fields"
  by (cases f) (simp_all add: all_fields_def)

lemma pool_okD:
  assumes "pool_ok w s"
  obtains S m ptrs where
    "sims w s = Some S" "mjmodels w (model_ref S) = Some m" "datas S = Some ptrs"
    "0 < num_envs S" "num_envs S \<le> INT_MAX" "length ptrs = nat (num_envs S)" "distinct ptrs"
    "\<And>i. i < length ptrs \<Longrightarrow> \<exists>a d. ptrs ! i = Some a \<and> mjdatas w a = Some d \<and> slot_ok m d"
    "\<And>f. \<exists>b. buf_field f S = Some b \<and> int (length b) = num_envs S * int (per_env_expr f m)
            \<and> num_envs S * int (per_env_expr f m) \<le> INT_MAX"
    "int (nu m) \<le> INT_MAX"
proof -
  from assms obtain S where S: "sims w s = Some S"
    by (auto simp: pool_ok_def split: option.splits)
  with assms obtain m where m: "mjmodels w (model_ref S) = Some m"
    by (auto simp: pool_ok_def split: option.splits)
  with S assms obtain ptrs where p: "datas S = Some ptrs"
    by (auto simp: pool_ok_def split: option.splits)
  from assms S m p have
    k: "0 < num_envs S" "num_envs S \<le> INT_MAX" "length ptrs = nat (num_envs S)" "distinct ptrs"
       "int (nu m) \<le> INT_MAX"
    and sl: "list_all (\<lambda>p. case deref_data w p of Inl _ \<Rightarrow> False | Inr (a, d) \<Rightarrow> slot_ok m d) ptrs"
    and bf: "list_all (\<lambda>f. case buf_field f S of
                          None \<Rightarrow> False
                        | Some b \<Rightarrow> int (length b) = num_envs S * int (per_env_expr f m) \<and>
                                    num_envs S * int (per_env_expr f m) \<le> INT_MAX) all_fields"
    by (simp_all add: pool_ok_def)
  have 1: "\<exists>a d. ptrs ! i = Some a \<and> mjdatas w a = Some d \<and> slot_ok m d" if "i < length ptrs" for i
  proof -
    from sl that have "case deref_data w (ptrs ! i) of Inl _ \<Rightarrow> False | Inr (a, d) \<Rightarrow> slot_ok m d"
      by (simp add: list_all_length)
    thus ?thesis by (auto simp: deref_data_def split: option.splits sum.splits)
  qed
  have 2: "\<exists>b. buf_field f S = Some b \<and> int (length b) = num_envs S * int (per_env_expr f m)
            \<and> num_envs S * int (per_env_expr f m) \<le> INT_MAX" for f
  proof -
    from bf all_fields_UNIV[of f] have "case buf_field f S of
                          None \<Rightarrow> False
                        | Some b \<Rightarrow> int (length b) = num_envs S * int (per_env_expr f m) \<and>
                                    num_envs S * int (per_env_expr f m) \<le> INT_MAX"
      by (simp add: list_all_iff)
    thus ?thesis by (auto split: option.splits)
  qed
  from that[OF S m p k(1,2,3,4) 1 2 k(5)] show thesis .
qed

lemma pool_ok_ex:
  assumes "pool_ok w s"
  shows "\<exists>S m ptrs.
    sims w s = Some S \<and> mjmodels w (model_ref S) = Some m \<and> datas S = Some ptrs \<and>
    0 < num_envs S \<and> num_envs S \<le> INT_MAX \<and> length ptrs = nat (num_envs S) \<and> distinct ptrs \<and>
    (\<forall>i<length ptrs. \<exists>a d. ptrs ! i = Some a \<and> mjdatas w a = Some d \<and> slot_ok m d) \<and>
    (\<forall>f. \<exists>b. buf_field f S = Some b \<and> int (length b) = num_envs S * int (per_env_expr f m)
            \<and> num_envs S * int (per_env_expr f m) \<le> INT_MAX) \<and>
    int (nu m) \<le> INT_MAX"
  using assms by (rule pool_okD) blast

lemma size_t_of_int_nat: "0 \<le> n \<Longrightarrow> n \<le> INT_MAX \<Longrightarrow> size_t_of_int n = nat n"
  by (simp add: size_t_of_int_def INT_MAX_def)

lemma INT_MAX_61: "int n \<le> INT_MAX \<Longrightarrow> n < 2 ^ 61"
  by (simp add: INT_MAX_def)

lemma slot_ok_ctrl: "slot_ok m d \<Longrightarrow> length (ctrl d) = nu m"
  by (simp add: slot_ok_def)

lemma slot_ok_field: "slot_ok m d \<Longrightarrow> length (data_field f d) = per_env_expr f m"
  using all_fields_UNIV[of f] by (simp add: slot_ok_def list_all_iff)

lemma batched_step_char:
  assumes ok: "pool_ok w s" and m: "pool_model w s = Some m"
    and len: "length cb = pool_size w s * nu m"
  shows "\<exists>w'. mjaccess_batched_step eng sched w (Some s) (Some cb) = Inr w' \<and>
           independent_steps eng w s cb = Inr w' \<and>
           mjmodels w' = mjmodels w \<and> sims w' = sims w \<and>
           (\<forall>i<pool_size w s. \<exists>d. slot_state w s i = Some d \<and>
               slot_state w' s i = Some (mj_step eng m (d\<lparr>ctrl := slice cb i (nu m)\<rparr>))) \<and>
           (\<forall>a. (\<forall>i<pool_size w s. slot_addr w s i \<noteq> Some a) \<longrightarrow> mjdatas w' a = mjdatas w a)"
proof -
  from ok obtain S m' ptrs where
    S: "sims w s = Some S" and m': "mjmodels w (model_ref S) = Some m'" and p: "datas S = Some ptrs"
    and ne: "0 < num_envs S" "num_envs S \<le> INT_MAX" and lp: "length ptrs = nat (num_envs S)"
    and dp: "distinct ptrs"
    and sl: "\<forall>i<length ptrs. \<exists>a d. ptrs ! i = Some a \<and> mjdatas w a = Some d \<and> slot_ok m' d"
    and nu: "int (nu m') \<le> INT_MAX"
    using pool_ok_ex by blast
  from m S m' have mm: "m' = m" by (simp add: pool_model_def)
  let ?N = "nat (num_envs S)"
  let ?n = "nu m"
  have N: "pool_size w s = ?N" using S by (simp add: pool_size_def)
  have n61: "?n < 2 ^ 61" by (rule INT_MAX_61) (use nu mm in simp)
  let ?f = "slot_step eng m cb ?n ptrs"
  let ?w' = "w\<lparr>mjdatas := fold ?f [0..<?N] (mjdatas w)\<rparr>"
  have run: "runnable ptrs ?n cb (mjdatas w) j" if "j < ?N" for j
  proof -
    from that have "j * ?n + ?n \<le> ?N * ?n"
      by (metis Suc_leI mult_Suc mult_le_mono1 add.commute)
    with sl that lp len N mm show ?thesis
      by (auto simp: runnable_def slot_ok_ctrl)
  qed
  have dist: "distinct (map ((!) ptrs) js)" if "distinct js" "set js \<subseteq> {..<?N}" for js
  proof -
    have "inj_on ((!) ptrs) (set js)"
    proof (rule inj_onI)
      fix x y assume "x \<in> set js" "y \<in> set js" "ptrs ! x = ptrs ! y"
      with that(2) lp have "x < length ptrs" "y < length ptrs" by auto
      with dp \<open>ptrs ! x = ptrs ! y\<close> show "x = y" by (simp add: nth_eq_iff_index_eq)
    qed
    with that(1) show ?thesis by (simp add: distinct_map)
  qed
  let ?ord = "run_order ?N sched"
  have perm: "mset ?ord = mset [0..<?N]" by (rule run_order_perm)
  hence ord: "distinct ?ord" "set ?ord = {..<?N}"
    by (metis distinct_upt mset_eq_imp_distinct_iff, metis atLeast_upt mset_eq_setD)
  have d1: "distinct (map ((!) ptrs) ?ord)" using ord by (intro dist) auto
  have d2: "distinct (map ((!) ptrs) [0..<?N])" by (intro dist) auto
  have "run_blocks (step_block eng s (model_ref S) ?n cb) ?ord w
        = Inr (w\<lparr>mjdatas := fold ?f ?ord (mjdatas w)\<rparr>)"
    using S m' p n61 d1 ord run unfolding mm by (intro dispatch_fold) auto
  also have "fold ?f ?ord = fold ?f [0..<?N]"
    using d1 perm by (rule fold_slot_step_perm)
  finally have A: "mjaccess_batched_step eng sched w (Some s) (Some cb) = Inr ?w'"
    using S m' mm ne by (simp add: mjaccess_batched_step_def dispatch_apply_def size_t_of_int_nat)
  have z: "zip [0..<length ptrs] ptrs = map (\<lambda>j. (j, ptrs ! j)) [0..<?N]"
    using lp by (intro nth_equalityI) auto
  have "single_steps eng (model_ref S) ?n cb (map (\<lambda>j. (j, ptrs ! j)) [0..<?N]) w = Inr ?w'"
    using m' n61 d2 run unfolding mm by (intro single_fold) auto
  hence B: "independent_steps eng w s cb = Inr ?w'"
    using S m' mm p z by (simp add: independent_steps_def)
  have C: "\<exists>d. slot_state w s i = Some d \<and>
               slot_state ?w' s i = Some (mj_step eng m (d\<lparr>ctrl := slice cb i ?n\<rparr>))"
    if "i < ?N" for i
  proof -
    from sl that lp obtain a d where ad: "ptrs ! i = Some a" "mjdatas w a = Some d" by auto
    have "fold ?f [0..<?N] (mjdatas w) a = Some (mj_step eng m (d\<lparr>ctrl := slice cb i ?n\<rparr>))"
      using d2 that ad by (intro fold_slot_step_at) auto
    with ad that lp S p show ?thesis
      by (simp add: slot_state_def slot_def datas_at_def deref_data_def)
  qed
  have D: "mjdatas ?w' a = mjdatas w a" if "\<forall>i<?N. slot_addr w s i \<noteq> Some a" for a
  proof -
    have "Some a \<notin> (!) ptrs ` set [0..<?N]"
    proof
      assume "Some a \<in> (!) ptrs ` set [0..<?N]"
      then obtain i where i: "i < ?N" "ptrs ! i = Some a" by auto
      with sl lp obtain d where "mjdatas w a = Some d" by auto
      with i lp S p have "slot_addr w s i = Some a"
        by (simp add: slot_addr_def slot_def datas_at_def deref_data_def)
      with that i show False by simp
    qed
    thus ?thesis by (simp add: fold_slot_step_other)
  qed
  from A B C D N show ?thesis by auto
qed

subsection \<open>The example pool\<close>

lemma ex_pool_ok: "pool_ok ex_world 4"
  by (simp add: pool_ok_def ex_world_def ex_sim_def ex_model_def all_fields_def deref_data_def
      slot_ok_def ex_default_def INT_MAX_def)

lemma ex_pool_model: "pool_model ex_world 4 = Some ex_model"
  by (simp add: pool_model_def ex_world_def ex_sim_def)

lemma ex_pool_size: "pool_size ex_world 4 = 2"
  by (simp add: pool_size_def ex_world_def ex_sim_def)

subsection \<open>Gather\<close>

lemma concat_blocks_length:
  "\<forall>j<N. length (g j) = p \<Longrightarrow> length (concat (map g [0..<N])) = N * p"
  by (induction N) simp_all

lemma concat_blocks_slice:
  assumes "\<forall>j<N. length (g j) = p" "i < N"
  shows "slice (concat (map g [0..<N])) i p = g i"
  using assms
proof (induction N)
  case 0
  then show ?case by simp
next
  case (Suc N)
  let ?A = "concat (map g [0..<N])"
  from Suc.prems have lA: "length ?A = N * p" by (intro concat_blocks_length) simp
  show ?case
  proof (cases "i < N")
    case True
    hence "i * p + p \<le> N * p"
      by (metis Suc_leI mult_Suc mult_le_mono1 add.commute)
    with lA have "take p (drop (i * p) (?A @ g N)) = take p (drop (i * p) ?A)" by simp
    with Suc True show ?thesis by (simp add: slice_def)
  next
    case False
    with Suc.prems have "i = N" by simp
    with lA Suc.prems show ?thesis by (simp add: slice_def)
  qed
qed

lemma gather_loop_upt:
  assumes S: "datas S = Some ptrs" and p61: "p < 2 ^ 61" and N: "N \<le> length ptrs"
    and sl: "\<forall>i<N. \<exists>a d. ptrs ! i = Some a \<and> mjdatas w a = Some d \<and> length (data_field f d) = p"
    and k: "k \<le> N" and lb: "length b = N * p"
  shows "gather_loop f p w S [k..<N] (Some b)
         = Inr (Some (take (k * p) b @ concat (map (slot_field f w S) [k..<N])))"
  using k lb
proof (induction "N - k" arbitrary: k b)
  case 0
  then show ?case by simp
next
  case (Suc n)
  hence kN: "k < N" by simp
  with sl obtain a d where ad: "ptrs ! k = Some a" "mjdatas w a = Some d" "length (data_field f d) = p"
    by blast
  from kN N S ad have sk: "slot w S k = Inr (a, d)"
    by (simp add: slot_def datas_at_def deref_data_def)
  hence fk: "slot_field f w S k = data_field f d" by (simp add: slot_field_def)
  from kN have bound: "k * p + p \<le> N * p"
    by (metis Suc_leI mult_Suc mult_le_mono1 add.commute)
  let ?b = "take (k * p) b @ data_field f d @ drop (k * p + p) b"
  from bound Suc.prems ad have mc: "memcpy b (k * p) (data_field f d) 0 (double_count (int p)) = Inr ?b"
    by (simp add: memcpy_def double_count_int[OF p61])
  from bound Suc.prems ad have lb': "length ?b = N * p" by simp
  from bound Suc.prems ad have tk: "take (Suc k * p) ?b = take (k * p) b @ data_field f d"
    by simp
  from Suc.hyps(2) kN have "n = N - Suc k" by simp
  from Suc.hyps(1)[OF this _ lb'] kN
  have "gather_loop f p w S [Suc k..<N] (Some ?b)
        = Inr (Some (take (Suc k * p) ?b @ concat (map (slot_field f w S) [Suc k..<N])))"
    by simp
  with sk mc tk fk kN show ?case by (simp add: upt_conv_Cons del: mult_Suc)
qed

lemma pool_field_slot_field:
  "sims w s = Some S \<Longrightarrow> pool_field f w s i = slot_field f w S i"
  by (simp add: pool_field_def slot_field_def slot_state_def split: sum.splits)

lemma per_env_alloc: "buf_alloc_len f ne m = ne * int (per_env_expr f m)"
  by (cases f) simp_all

lemma buf_field_update_frame [simp]:
  "model_ref (buf_field_update f b S) = model_ref S"
  "num_envs (buf_field_update f b S) = num_envs S"
  "datas (buf_field_update f b S) = datas S"
  by (cases f; simp)+

lemma gather_char:
  assumes ok: "pool_ok w s" and m: "pool_model w s = Some m"
  shows "\<exists>w' buf.
           BATCHED_GATHER f w (Some s) n_out
             = Inr (w', Some buf,
                    map_option (\<lambda>_. int (pool_size w s) * int (per_env_expr f m)) n_out) \<and>
           buf = concat (map (pool_field f w s) [0..<pool_size w s]) \<and>
           length buf = pool_size w s * per_env_expr f m \<and>
           (\<forall>i<pool_size w s. \<exists>d. slot_state w s i = Some d \<and>
                slice buf i (per_env_expr f m) = data_field f d) \<and>
           (\<exists>S. sims w s = Some S \<and>
                w' = w\<lparr>sims := (sims w)(s \<mapsto> buf_field_update f (Some buf) S)\<rparr>)"
proof -
  from ok obtain S m' ptrs where
    S: "sims w s = Some S" and m': "mjmodels w (model_ref S) = Some m'" and p: "datas S = Some ptrs"
    and ne: "0 < num_envs S" "num_envs S \<le> INT_MAX" and lp: "length ptrs = nat (num_envs S)"
    and sl: "\<forall>i<length ptrs. \<exists>a d. ptrs ! i = Some a \<and> mjdatas w a = Some d \<and> slot_ok m' d"
    and bf: "\<forall>f. \<exists>b. buf_field f S = Some b \<and> int (length b) = num_envs S * int (per_env_expr f m')
            \<and> num_envs S * int (per_env_expr f m') \<le> INT_MAX"
    using pool_ok_ex by blast
  from m S m' have mm: "m' = m" by (simp add: pool_model_def)
  let ?N = "nat (num_envs S)"
  let ?p = "per_env_expr f m"
  have N: "pool_size w s = ?N" using S by (simp add: pool_size_def)
  from bf mm obtain b where b: "buf_field f S = Some b" "int (length b) = num_envs S * int ?p"
      "num_envs S * int ?p \<le> INT_MAX"
    by blast
  from b(2) ne have lb: "length b = ?N * ?p"
    by (metis nat_int nat_mult_distrib of_nat_0_le_iff mult.commute zero_le_mult_iff less_imp_le)
  have "int ?p \<le> num_envs S * int ?p" using ne by (simp add: mult_le_cancel_right1)
  with b(3) have "int ?p \<le> INT_MAX" by simp
  hence p61: "?p < 2 ^ 61" by (rule INT_MAX_61)
  have sl': "\<forall>i<?N. \<exists>a d. ptrs ! i = Some a \<and> mjdatas w a = Some d \<and> length (data_field f d) = ?p"
    using sl lp mm by (auto simp: slot_ok_field)
  let ?buf = "concat (map (slot_field f w S) [0..<?N])"
  have "gather_loop f ?p w S [0..<?N] (Some b) = Inr (Some (take (0 * ?p) b @ ?buf))"
    using p p61 _ sl' _ lb by (rule gather_loop_upt) (simp_all add: lp)
  hence gl: "gather_loop f ?p w S [0..<?N] (buf_field f S) = Inr (Some ?buf)"
    using b by simp
  have fld: "\<exists>d. slot_state w s i = Some d \<and> slot_field f w S i = data_field f d
                \<and> length (data_field f d) = ?p" if "i < ?N" for i
  proof -
    from sl' that obtain a d where "ptrs ! i = Some a" "mjdatas w a = Some d"
        "length (data_field f d) = ?p" by blast
    with that lp S p show ?thesis
      by (simp add: slot_state_def slot_field_def slot_def datas_at_def deref_data_def)
  qed
  hence lens: "\<forall>j<?N. length (slot_field f w S j) = ?p" by metis
  have pf: "map (pool_field f w s) [0..<?N] = map (slot_field f w S) [0..<?N]"
    using S by (simp add: pool_field_slot_field)
  have A: "BATCHED_GATHER f w (Some s) n_out
           = Inr (w\<lparr>sims := (sims w)(s \<mapsto> buf_field_update f (Some ?buf) S)\<rparr>, Some ?buf,
                  map_option (\<lambda>_. int ?N * int ?p) n_out)"
    using S m' mm gl ne by (simp add: BATCHED_GATHER_def Let_def)
  have B: "length ?buf = ?N * ?p" using lens by (rule concat_blocks_length)
  have C: "\<exists>d. slot_state w s i = Some d \<and> slice ?buf i ?p = data_field f d" if "i < ?N" for i
    using fld[OF that] concat_blocks_slice[OF lens that] by auto
  show ?thesis unfolding N pf using A B C S by blast
qed

subsection \<open>Reset\<close>

lemma reset_loop_char:
  assumes "datas S = Some ptrs" "mjmodels w (model_ref S) = Some m"
    and "distinct (map ((!) ptrs) js)"
    and "\<forall>j\<in>set js. j < length ptrs \<and> j < length msk \<and>
            (\<exists>a d. ptrs ! j = Some a \<and> mjdatas w a = Some d)"
  shows "\<exists>w'. reset_loop eng S msk js w = Inr w' \<and>
           w' = w\<lparr>mjdatas := mjdatas w'\<rparr> \<and>
           (\<forall>a. mjdatas w' a =
                  (if \<exists>j\<in>set js. ptrs ! j = Some a \<and> msk ! j \<noteq> 0
                   then map_option (mj_resetData eng m) (mjdatas w a) else mjdatas w a))"
  using assms
proof (induction js arbitrary: w)
  case Nil
  then show ?case by simp
next
  case (Cons i js)
  from Cons.prems obtain a d where ad: "i < length ptrs" "i < length msk" "ptrs ! i = Some a"
      "mjdatas w a = Some d"
    by auto
  have notin: "ptrs ! j \<noteq> Some a" if "j \<in> set js" for j
    using Cons.prems(3) ad(3) that by (metis distinct.simps(2) image_eqI list.simps(9) set_map)
  show ?case
  proof (cases "msk ! i = 0")
    case True
    from Cons.IH[of w] Cons.prems obtain w' where w': "reset_loop eng S msk js w = Inr w'"
        "w' = w\<lparr>mjdatas := mjdatas w'\<rparr>"
        "\<forall>a. mjdatas w' a =
                  (if \<exists>j\<in>set js. ptrs ! j = Some a \<and> msk ! j \<noteq> 0
                   then map_option (mj_resetData eng m) (mjdatas w a) else mjdatas w a)"
      by auto
    from w'(1) True ad have "reset_loop eng S msk (i # js) w = Inr w'" by simp
    moreover from w'(3) True have "\<forall>a. mjdatas w' a =
                  (if \<exists>j\<in>set (i # js). ptrs ! j = Some a \<and> msk ! j \<noteq> 0
                   then map_option (mj_resetData eng m) (mjdatas w a) else mjdatas w a)"
      by simp
    ultimately show ?thesis using w'(2) by blast
  next
    case False
    let ?w = "w\<lparr>mjdatas := (mjdatas w)(a \<mapsto> mj_resetData eng m d)\<rparr>"
    have call: "mj_resetData_call eng w (model_ref S) a = Inr ?w"
      using Cons.prems(2) ad by (simp add: mj_resetData_call_def)
    have pre: "\<forall>j\<in>set js. j < length ptrs \<and> j < length msk \<and>
            (\<exists>a d. ptrs ! j = Some a \<and> mjdatas ?w a = Some d)"
    proof
      fix j assume j: "j \<in> set js"
      with Cons.prems(4) obtain a' d' where "j < length ptrs" "j < length msk"
          "ptrs ! j = Some a'" "mjdatas w a' = Some d'" by auto
      moreover with notin[OF j] have "a' \<noteq> a" by auto
      ultimately show "j < length ptrs \<and> j < length msk \<and>
            (\<exists>a d. ptrs ! j = Some a \<and> mjdatas ?w a = Some d)" by simp
    qed
    from Cons.IH[of ?w] Cons.prems(1,2,3) pre obtain w' where w': "reset_loop eng S msk js ?w = Inr w'"
        "w' = ?w\<lparr>mjdatas := mjdatas w'\<rparr>"
        "\<forall>b. mjdatas w' b =
                  (if \<exists>j\<in>set js. ptrs ! j = Some b \<and> msk ! j \<noteq> 0
                   then map_option (mj_resetData eng m) (mjdatas ?w b) else mjdatas ?w b)"
      by auto
    from w'(1) False ad call Cons.prems(1)
    have A: "reset_loop eng S msk (i # js) w = Inr w'" by (simp add: datas_at_def)
    from w'(2) have B: "w' = w\<lparr>mjdatas := mjdatas w'\<rparr>" by (metis world.update_convs(2) world.surjective)
    have C: "mjdatas w' b =
                  (if \<exists>j\<in>set (i # js). ptrs ! j = Some b \<and> msk ! j \<noteq> 0
                   then map_option (mj_resetData eng m) (mjdatas w b) else mjdatas w b)" for b
    proof (cases "b = a")
      case True
      with notin have "\<not> (\<exists>j\<in>set js. ptrs ! j = Some b \<and> msk ! j \<noteq> 0)" by auto
      hence "mjdatas w' b = mjdatas ?w b" using w'(3)[rule_format, of b] by (simp only: if_False)
      with True have "mjdatas w' b = Some (mj_resetData eng m d)" by simp
      with True ad False show ?thesis by auto
    next
      case ba: False
      with ad have "(\<exists>j\<in>set (i # js). ptrs ! j = Some b \<and> msk ! j \<noteq> 0)
                    = (\<exists>j\<in>set js. ptrs ! j = Some b \<and> msk ! j \<noteq> 0)" by auto
      with w'(3)[rule_format, of b] ba show ?thesis by auto
    qed
    from A B C show ?thesis by blast
  qed
qed

lemma distinct_ptrs_upt:
  assumes "distinct ptrs" "N \<le> length ptrs"
  shows "distinct (map ((!) ptrs) [0..<N])"
proof -
  have "inj_on ((!) ptrs) (set [0..<N])"
  proof (rule inj_onI)
    fix x y assume "x \<in> set [0..<N]" "y \<in> set [0..<N]" "ptrs ! x = ptrs ! y"
    with assms show "x = y" by (simp add: nth_eq_iff_index_eq)
  qed
  thus ?thesis by (simp add: distinct_map)
qed

lemma batched_reset_char:
  assumes ok: "pool_ok w s" and m: "pool_model w s = Some m"
    and len: "length msk = pool_size w s"
  shows "\<exists>w'. mjaccess_batched_reset eng w (Some s) (Some msk) = Inr w' \<and>
           w' = w\<lparr>mjdatas := mjdatas w'\<rparr> \<and>
           (\<forall>i<pool_size w s. \<exists>d. slot_state w s i = Some d \<and>
               slot_state w' s i = Some (if msk ! i \<noteq> 0 then mj_resetData eng m d else d)) \<and>
           (\<forall>a. (\<forall>i<pool_size w s. slot_addr w s i \<noteq> Some a) \<longrightarrow> mjdatas w' a = mjdatas w a) \<and>
           ((\<forall>i<pool_size w s. msk ! i = 0) \<longrightarrow> w' = w)"
proof -
  from ok obtain S m' ptrs where
    S: "sims w s = Some S" and m': "mjmodels w (model_ref S) = Some m'" and p: "datas S = Some ptrs"
    and lp: "length ptrs = nat (num_envs S)" and dp: "distinct ptrs"
    and sl: "\<forall>i<length ptrs. \<exists>a d. ptrs ! i = Some a \<and> mjdatas w a = Some d \<and> slot_ok m' d"
    using pool_ok_ex by blast
  from m S m' have mm: "m' = m" by (simp add: pool_model_def)
  let ?N = "nat (num_envs S)"
  have N: "pool_size w s = ?N" using S by (simp add: pool_size_def)
  have d: "distinct (map ((!) ptrs) [0..<?N])" using dp lp by (intro distinct_ptrs_upt) simp_all
  have pre: "\<forall>j\<in>set [0..<?N]. j < length ptrs \<and> j < length msk \<and>
            (\<exists>a d. ptrs ! j = Some a \<and> mjdatas w a = Some d)"
    using sl lp len N by auto
  from reset_loop_char[OF p m' d pre, of eng] obtain w' where
    w': "reset_loop eng S msk [0..<?N] w = Inr w'" "w' = w\<lparr>mjdatas := mjdatas w'\<rparr>"
        "\<forall>a. mjdatas w' a =
                  (if \<exists>j\<in>set [0..<?N]. ptrs ! j = Some a \<and> msk ! j \<noteq> 0
                   then map_option (mj_resetData eng m') (mjdatas w a) else mjdatas w a)"
    by blast
  have A: "mjaccess_batched_reset eng w (Some s) (Some msk) = Inr w'"
    using S w'(1) by (simp add: mjaccess_batched_reset_def)
  from w'(2) S have S': "sims w' s = Some S" by (metis world.select_convs(3) world.surjective world.update_convs(2))
  have C: "\<exists>d. slot_state w s i = Some d \<and>
               slot_state w' s i = Some (if msk ! i \<noteq> 0 then mj_resetData eng m d else d)"
    if "i < ?N" for i
  proof -
    from sl that lp obtain a d where ad: "ptrs ! i = Some a" "mjdatas w a = Some d" by auto
    have "(\<exists>j\<in>set [0..<?N]. ptrs ! j = Some a \<and> msk ! j \<noteq> 0) = (msk ! i \<noteq> 0)"
    proof
      assume "\<exists>j\<in>set [0..<?N]. ptrs ! j = Some a \<and> msk ! j \<noteq> 0"
      then obtain j where j: "j < ?N" "ptrs ! j = Some a" "msk ! j \<noteq> 0" by auto
      with ad that dp lp have "j = i" by (metis nth_eq_iff_index_eq)
      with j show "msk ! i \<noteq> 0" by simp
    next
      assume "msk ! i \<noteq> 0"
      with that ad show "\<exists>j\<in>set [0..<?N]. ptrs ! j = Some a \<and> msk ! j \<noteq> 0" by auto
    qed
    with w'(3) ad mm have "mjdatas w' a = Some (if msk ! i \<noteq> 0 then mj_resetData eng m d else d)"
      by simp
    with ad that lp S S' p show ?thesis
      by (simp add: slot_state_def slot_def datas_at_def deref_data_def)
  qed
  have D: "mjdatas w' a = mjdatas w a" if "\<forall>i<?N. slot_addr w s i \<noteq> Some a" for a
  proof -
    have "\<not> (\<exists>j\<in>set [0..<?N]. ptrs ! j = Some a \<and> msk ! j \<noteq> 0)"
    proof
      assume "\<exists>j\<in>set [0..<?N]. ptrs ! j = Some a \<and> msk ! j \<noteq> 0"
      then obtain i where i: "i < ?N" "ptrs ! i = Some a" by auto
      with sl lp obtain d where "mjdatas w a = Some d" by auto
      with i lp S p have "slot_addr w s i = Some a"
        by (simp add: slot_addr_def slot_def datas_at_def deref_data_def)
      with that i show False by simp
    qed
    thus ?thesis using w'(3)[rule_format, of a] by (simp only: if_False)
  qed
  have E: "w' = w" if "\<forall>i<?N. msk ! i = 0"
  proof -
    from that have "\<And>a. \<not> (\<exists>j\<in>set [0..<?N]. ptrs ! j = Some a \<and> msk ! j \<noteq> 0)" by auto
    hence "mjdatas w' a = mjdatas w a" for a
      using w'(3)[rule_format, of a] by (simp only: if_False)
    hence "mjdatas w' = mjdatas w" by (simp add: fun_eq_iff)
    with w'(2) show ?thesis by simp
  qed
  show ?thesis unfolding N using A w'(2) C D E by blast
qed

subsection \<open>The shared model is not written\<close>

lemma mj_step_call_models: "mj_step_call eng w mj a = Inr w' \<Longrightarrow> mjmodels w' = mjmodels w"
  by (auto simp: mj_step_call_def split: option.splits)

lemma mj_resetData_call_models: "mj_resetData_call eng w mj a = Inr w' \<Longrightarrow> mjmodels w' = mjmodels w"
  by (auto simp: mj_resetData_call_def split: option.splits)

lemma mj_deleteData_call_models: "mj_deleteData_call w a = Inr w' \<Longrightarrow> mjmodels w' = mjmodels w"
  by (auto simp: mj_deleteData_call_def split: option.splits)

lemma mj_makeData_call_models: "mj_makeData_call eng w mj = Inr (w', p) \<Longrightarrow> mjmodels w' = mjmodels w"
  by (auto simp: mj_makeData_call_def split: option.splits if_splits)

lemma step_block_models: "step_block eng s mj n cb i w = Inr w' \<Longrightarrow> mjmodels w' = mjmodels w"
  by (auto simp: step_block_def split: option.splits sum.splits dest!: mj_step_call_models)

lemma run_blocks_step_models:
  "run_blocks (step_block eng s mj n cb) js w = Inr w' \<Longrightarrow> mjmodels w' = mjmodels w"
proof (induction js arbitrary: w)
  case Nil
  then show ?case by simp
next
  case (Cons i js)
  then show ?case
    by (auto split: sum.splits dest!: step_block_models)
qed

lemma batched_step_models:
  "mjaccess_batched_step eng sched w sim ctrl_buf = Inr w' \<Longrightarrow> mjmodels w' = mjmodels w"
  by (auto simp: mjaccess_batched_step_def dispatch_apply_def split: option.splits
      dest: run_blocks_step_models)

lemma reset_loop_models: "reset_loop eng S msk js w = Inr w' \<Longrightarrow> mjmodels w' = mjmodels w"
proof (induction js arbitrary: w)
  case Nil
  then show ?case by simp
next
  case (Cons i js)
  then show ?case
    by (auto split: sum.splits option.splits if_splits dest!: mj_resetData_call_models)
qed

lemma batched_reset_models:
  "mjaccess_batched_reset eng w sim reset_mask = Inr w' \<Longrightarrow> mjmodels w' = mjmodels w"
  by (auto simp: mjaccess_batched_reset_def split: option.splits dest: reset_loop_models)

lemma batched_gather_models:
  "BATCHED_GATHER f w sim n_out = Inr (w', r) \<Longrightarrow> mjmodels w' = mjmodels w"
  by (auto simp: BATCHED_GATHER_def Let_def split: option.splits sum.splits)

lemma set_env_qpos_models:
  "mjaccess_batched_set_env_qpos w sim env_idx vals n = Inr w' \<Longrightarrow> mjmodels w' = mjmodels w"
  by (auto simp: mjaccess_batched_set_env_qpos_def split: option.splits sum.splits if_splits)

lemma set_env_qvel_models:
  "mjaccess_batched_set_env_qvel w sim env_idx vals n = Inr w' \<Longrightarrow> mjmodels w' = mjmodels w"
  by (auto simp: mjaccess_batched_set_env_qvel_def split: option.splits sum.splits if_splits)

lemma free_loop_models: "free_loop w S js = Inr w' \<Longrightarrow> mjmodels w' = mjmodels w"
proof (induction js arbitrary: w)
  case Nil
  then show ?case by simp
next
  case (Cons i js)
  then show ?case
    by (auto split: sum.splits option.splits dest!: mj_deleteData_call_models)
qed

lemma batched_free_models: "mjaccess_batched_free w sim = Inr w' \<Longrightarrow> mjmodels w' = mjmodels w"
  by (auto simp: mjaccess_batched_free_def batched_free_buffers_def
      split: option.splits sum.splits dest!: free_loop_models)

lemma create_loop_models: "create_loop eng w s mj js = Inr (w', b) \<Longrightarrow> mjmodels w' = mjmodels w"
proof (induction js arbitrary: w)
  case Nil
  then show ?case by simp
next
  case (Cons i js)
  from Cons.prems obtain w1 p where 1: "mj_makeData_call eng w mj = Inr (w1, p)"
    by (auto split: sum.splits)
  hence m1: "mjmodels w1 = mjmodels w" by (rule mj_makeData_call_models)
  from Cons.prems 1 obtain S ptrs where 2: "sims w1 s = Some S" "datas S = Some ptrs" "i < length ptrs"
    by (auto split: option.splits if_splits)
  let ?w2 = "w1\<lparr>sims := (sims w1)(s \<mapsto> S\<lparr>datas := Some (ptrs[i := p])\<rparr>)\<rparr>"
  show ?case
  proof (cases p)
    case None
    with Cons.prems 1 2 obtain w3 where "mjaccess_batched_free ?w2 (Some s) = Inr w3" "w' = w3"
      by (auto simp: Let_def split: sum.splits)
    hence "mjmodels w' = mjmodels ?w2" by (auto dest: batched_free_models)
    with m1 show ?thesis by simp
  next
    case (Some a)
    with Cons.prems 1 2 have "create_loop eng ?w2 s mj js = Inr (w', b)"
      by (simp add: Let_def)
    from Cons.IH[OF this] m1 show ?thesis by simp
  qed
qed

lemma alloc_buffers_models: "alloc_buffers w s mj ne fs = Inr w' \<Longrightarrow> mjmodels w' = mjmodels w"
proof (induction fs arbitrary: w)
  case Nil
  then show ?case by simp
next
  case (Cons f fs)
  then show ?case
    by (auto simp: malloc_doubles_def split: option.splits prod.splits)
qed

lemmas ex_eval = ex_empty_def ex_world_def ex_sim_def ex_model_def ex_default_def ex_engine_def
  ex_step_def

lemma replicate_2: "replicate 2 x = [x, x]"
  by (simp add: numeral_2_eq_2)

lemma ex_create:
  "\<exists>w'. mjaccess_batched_create ex_engine ex_empty (Some \<lparr>model_mj = Some 0\<rparr>)
           (Some \<lparr>cfg_num_envs = 2, solver_iterations = 5\<rparr>) = Inr (w', Some 4) \<and>
         mjmodels w' 0 = Some (ex_model\<lparr>opt_iterations := 5\<rparr>) \<and> pool_ok w' 4"
  by (simp add: mjaccess_batched_create_def ex_eval next_outcome_def Let_def size_t_of_int_def
      upt_rec mj_makeData_call_def alloc_buffers.simps all_fields_def malloc_doubles_def
      double_count_def pool_ok_def deref_data_def slot_ok_def INT_MAX_def replicate_2)

lemma batched_create_models_exact:
  assumes "mjaccess_batched_create eng w model config = Inr (w', r)"
  shows "(r = None \<longrightarrow> mjmodels w' = mjmodels w) \<and>
         (r \<noteq> None \<longrightarrow>
            (\<exists>M mj cfg m. model = Some M \<and> model_mj M = Some mj \<and> config = Some cfg \<and>
               mjmodels w mj = Some m \<and>
               mjmodels w' = (if 0 < solver_iterations cfg
                              then (mjmodels w)(mj \<mapsto> m\<lparr>opt_iterations := solver_iterations cfg\<rparr>)
                              else mjmodels w)))"
proof (cases "\<exists>M mj cfg. model = Some M \<and> model_mj M = Some mj \<and> config = Some cfg \<and> 0 < cfg_num_envs cfg")
  case False
  with assms have "w' = w \<and> r = None"
    by (auto simp: mjaccess_batched_create_def split: option.splits if_splits)
  then show ?thesis by simp
next
  case True
  then obtain M mj cfg where c: "model = Some M" "model_mj M = Some mj" "config = Some cfg"
      "0 < cfg_num_envs cfg" by blast
  let ?ne = "cfg_num_envs cfg"
  let ?s = "next_addr w"
  let ?sim = "\<lparr>model_ref = mj, num_envs = ?ne,
               datas = (if next_outcome (tl (libc_plan w))
                        then Some (replicate (size_t_of_int ?ne) None) else None),
               qpos_buf = None, qvel_buf = None, xpos_buf = None,
               subtree_com_buf = None, cinert_buf = None, cvel_buf = None,
               qfrc_actuator_buf = None, cfrc_ext_buf = None\<rparr> :: 'a MjAccessBatchedSim"
  let ?w1 = "w\<lparr>sims := (sims w)(?s \<mapsto> ?sim), next_addr := Suc ?s,
               libc_plan := tl (tl (libc_plan w))\<rparr>"
  from assms c obtain w2 b where l: "create_loop eng ?w1 ?s mj [0..<nat ?ne] = Inr (w2, b)"
    by (auto simp: mjaccess_batched_create_def Let_def split: if_splits sum.splits)
  hence m2: "mjmodels w2 = mjmodels w" by (auto dest: create_loop_models)
  show ?thesis
  proof (cases b)
    case False
    with assms c l have "w' = w2 \<and> r = None"
      by (auto simp: mjaccess_batched_create_def Let_def split: if_splits)
    with m2 show ?thesis by simp
  next
    case True
    with assms c l obtain m where m: "mjmodels w2 mj = Some m"
      by (auto simp: mjaccess_batched_create_def Let_def split: if_splits option.splits)
    let ?w3 = "if solver_iterations cfg > 0
               then w2\<lparr>mjmodels := (mjmodels w2)(mj \<mapsto> m\<lparr>opt_iterations := solver_iterations cfg\<rparr>)\<rparr>
               else w2"
    from assms c l True m have a: "alloc_buffers ?w3 ?s mj ?ne all_fields = Inr w'" "r = Some ?s"
      by (auto simp: mjaccess_batched_create_def Let_def split: if_splits sum.splits)
    from a(1) have "mjmodels w' = mjmodels ?w3" by (rule alloc_buffers_models)
    with m2 m a(2) c show ?thesis by (cases "solver_iterations cfg > 0") auto
  qed
qed

lemma ex_free:
  "\<exists>w'. mjaccess_batched_free ex_world (Some 4) = Inr w' \<and> sims w' 4 = None \<and>
         mjdatas w' 2 = None \<and> mjdatas w' 3 = None"
  by (simp add: mjaccess_batched_free_def ex_eval upt_rec datas_at_def mj_deleteData_call_def
      batched_free_buffers_def)

lemma ex_set_env:
  "\<exists>w'. mjaccess_batched_set_env_qpos ex_world (Some 4) 1 (Some [21, 22]) 1 = Inr w' \<and>
         map_option qpos (slot_state w' 4 1) = Some [21, 6]"
  by (simp add: mjaccess_batched_set_env_qpos_def ex_eval slot_def datas_at_def deref_data_def
      memcpy_def double_count_def size_t_of_int_def slot_state_def)

lemma ex_set_env_qvel:
  "\<exists>w'. mjaccess_batched_set_env_qvel ex_world (Some 4) 1 (Some [21, 22]) 2 = Inr w' \<and>
         map_option qvel (slot_state w' 4 1) = Some [21, 22]"
  by (simp add: mjaccess_batched_set_env_qvel_def ex_eval slot_def datas_at_def deref_data_def
      memcpy_def double_count_def size_t_of_int_def slot_state_def)

subsection \<open>Destroying a pool\<close>

lemma without_slots_Nil [simp]: "without_slots [] h = h"
  by (simp add: without_slots_def)

lemma without_slots_None [simp]: "without_slots (None # ps) h = without_slots ps h"
  by (simp add: without_slots_def)

lemma without_slots_Some: "without_slots (Some a # ps) h = without_slots ps (h(a := None))"
  by (auto simp: without_slots_def fun_eq_iff)

lemma free_loop_char:
  assumes "datas S = Some ptrs" "set js \<subseteq> {..<length ptrs}"
    and "\<forall>j\<in>set js. \<forall>a. ptrs ! j = Some a \<longrightarrow> mjdatas w a \<noteq> None"
    and "distinct (filter (\<lambda>p. p \<noteq> None) (map ((!) ptrs) js))"
  shows "free_loop w S js = Inr (w\<lparr>mjdatas := without_slots (map ((!) ptrs) js) (mjdatas w)\<rparr>)"
  using assms
proof (induction js arbitrary: w)
  case Nil
  then show ?case by simp
next
  case (Cons i js)
  from Cons.prems have i: "i < length ptrs" by simp
  show ?case
  proof (cases "ptrs ! i")
    case None
    with Cons.IH[of w] Cons.prems i show ?thesis by (simp add: datas_at_def)
  next
    case (Some a)
    with Cons.prems obtain d where d: "mjdatas w a = Some d" by auto
    let ?w = "w\<lparr>mjdatas := (mjdatas w)(a := None)\<rparr>"
    from d have del: "mj_deleteData_call w a = Inr ?w" by (simp add: mj_deleteData_call_def)
    from Cons.prems(4) Some have notin: "Some a \<notin> set (map ((!) ptrs) js)" by auto
    have live: "\<forall>j\<in>set js. \<forall>b. ptrs ! j = Some b \<longrightarrow> mjdatas ?w b \<noteq> None"
    proof (intro ballI allI impI)
      fix j b assume jb: "j \<in> set js" "ptrs ! j = Some b"
      with notin have "b \<noteq> a" by force
      with jb Cons.prems(3) show "mjdatas ?w b \<noteq> None" by simp
    qed
    from Cons.prems(4) Some have "distinct (filter (\<lambda>p. p \<noteq> None) (map ((!) ptrs) js))" by simp
    hence "free_loop ?w S js = Inr (?w\<lparr>mjdatas := without_slots (map ((!) ptrs) js) (mjdatas ?w)\<rparr>)"
      using Cons.prems(1,2) live by (intro Cons.IH) auto
    hence "free_loop ?w S js
           = Inr (w\<lparr>mjdatas := without_slots (map ((!) ptrs) js) ((mjdatas w)(a := None))\<rparr>)"
      by simp
    with Some del i Cons.prems(1) show ?thesis
      by (simp add: datas_at_def without_slots_Some)
  qed
qed

lemma batched_free_char:
  assumes S: "sims w s = Some S" and p: "datas S = Some ptrs" and lp: "length ptrs = nat (num_envs S)"
    and live: "\<forall>a. Some a \<in> set ptrs \<longrightarrow> mjdatas w a \<noteq> None"
    and dist: "distinct (filter (\<lambda>p. p \<noteq> None) ptrs)"
  shows "mjaccess_batched_free w (Some s)
         = Inr (w\<lparr>mjdatas := without_slots ptrs (mjdatas w), sims := (sims w)(s := None)\<rparr>)"
proof -
  have all: "map ((!) ptrs) [0..<nat (num_envs S)] = ptrs"
    using lp by (metis map_nth)
  have "free_loop w S [0..<nat (num_envs S)]
        = Inr (w\<lparr>mjdatas := without_slots (map ((!) ptrs) [0..<nat (num_envs S)]) (mjdatas w)\<rparr>)"
  proof (rule free_loop_char[OF p])
    show "set [0..<nat (num_envs S)] \<subseteq> {..<length ptrs}" using lp by auto
    show "\<forall>j\<in>set [0..<nat (num_envs S)]. \<forall>a. ptrs ! j = Some a \<longrightarrow> mjdatas w a \<noteq> None"
      using live lp by (metis atLeastLessThan_iff nth_mem set_upt)
    show "distinct (filter (\<lambda>p. p \<noteq> None) (map ((!) ptrs) [0..<nat (num_envs S)]))"
      using dist all by simp
  qed
  with all have fl: "free_loop w S [0..<nat (num_envs S)]
        = Inr (w\<lparr>mjdatas := without_slots ptrs (mjdatas w)\<rparr>)" by simp
  show ?thesis using S p fl
    by (simp add: mjaccess_batched_free_def batched_free_buffers_def)
qed

subsection \<open>The allocation loop of create\<close>

lemma create_inv_entries:
  assumes "create_inv w s mj N i ptrs" "Some a \<in> set ptrs"
  shows "a < next_addr w \<and> mjdatas w a \<noteq> None"
proof -
  from assms(2) obtain j where j: "j < length ptrs" "ptrs ! j = Some a"
    by (auto simp: in_set_conv_nth)
  with assms(1) have "j < i" by (auto simp: create_inv_def) (metis not_less option.distinct(1))
  with assms(1) j show ?thesis by (auto simp: create_inv_def)
qed

lemma create_inv_distinct:
  assumes "create_inv w s mj N i ptrs"
  shows "distinct (filter (\<lambda>p. p \<noteq> None) ptrs)"
proof -
  from assms have n: "\<forall>j. i \<le> j \<and> j < length ptrs \<longrightarrow> ptrs ! j = None" and d: "distinct (take i ptrs)"
    by (auto simp: create_inv_def)
  have "\<forall>p\<in>set (drop i ptrs). p = None"
  proof
    fix p assume "p \<in> set (drop i ptrs)"
    then obtain j where "j < length (drop i ptrs)" "drop i ptrs ! j = p"
      by (auto simp: in_set_conv_nth)
    with n show "p = None" by (simp add: less_diff_conv add.commute)
  qed
  hence "filter (\<lambda>p. p \<noteq> None) (drop i ptrs) = []" by (simp add: filter_empty_conv)
  moreover have "ptrs = take i ptrs @ drop i ptrs" by simp
  ultimately have "filter (\<lambda>p. p \<noteq> None) ptrs = filter (\<lambda>p. p \<noteq> None) (take i ptrs)"
    by (metis append_Nil2 filter_append)
  with d show ?thesis by (simp add: distinct_filter)
qed

lemma set_update_None:
  assumes "i < length ptrs" "ptrs ! i = None"
  shows "(Some b \<in> set (ptrs[i := Some a])) = (b = a \<or> Some b \<in> set ptrs)"
proof
  assume "Some b \<in> set (ptrs[i := Some a])"
  then obtain j where j: "j < length ptrs" "ptrs[i := Some a] ! j = Some b"
    by (auto simp: in_set_conv_nth)
  show "b = a \<or> Some b \<in> set ptrs"
  proof (cases "j = i")
    case True
    with j show ?thesis by simp
  next
    case False
    with j have "ptrs ! j = Some b" by simp
    with j(1) show ?thesis by (metis nth_mem)
  qed
next
  assume "b = a \<or> Some b \<in> set ptrs"
  then show "Some b \<in> set (ptrs[i := Some a])"
  proof
    assume "b = a"
    with assms(1) show ?thesis by (simp add: set_update_memI)
  next
    assume "Some b \<in> set ptrs"
    then obtain j where j: "j < length ptrs" "ptrs ! j = Some b"
      by (auto simp: in_set_conv_nth)
    with assms(2) have "j \<noteq> i" by auto
    with j have "ptrs[i := Some a] ! j = Some b" by simp
    with j(1) show ?thesis by (metis length_list_update nth_mem)
  qed
qed

lemma without_slots_step:
  assumes inv: "create_inv w s mj N i ptrs" and i: "i < N"
  shows "without_slots (ptrs[i := Some (next_addr w)]) ((mjdatas w)(next_addr w \<mapsto> d))
         = without_slots ptrs (mjdatas w)"
proof
  fix b
  from inv i have il: "i < length ptrs" and pi: "ptrs ! i = None" by (auto simp: create_inv_def)
  from inv have fresh: "mjdatas w (next_addr w) = None" by (simp add: create_inv_def heap_ok_def)
  from inv have notin: "Some (next_addr w) \<notin> set ptrs"
    using create_inv_entries[OF inv, of "next_addr w"] by auto
  show "without_slots (ptrs[i := Some (next_addr w)]) ((mjdatas w)(next_addr w \<mapsto> d)) b
        = without_slots ptrs (mjdatas w) b"
    using fresh notin by (auto simp: without_slots_def set_update_None[OF il pi])
qed

lemma create_inv_step:
  assumes inv: "create_inv w s mj N i ptrs" and i: "i < N" and S: "sims w s = Some S"
  shows "create_inv
           (w\<lparr>mjdatas := (mjdatas w)(next_addr w \<mapsto> d), next_addr := Suc (next_addr w),
              makeData_plan := pl,
              sims := (sims w)(s \<mapsto> S\<lparr>datas := Some (ptrs[i := Some (next_addr w)])\<rparr>)\<rparr>)
           s mj N (Suc i) (ptrs[i := Some (next_addr w)])"
proof -
  let ?a = "next_addr w"
  let ?ptrs = "ptrs[i := Some ?a]"
  from inv S have facts: "datas S = Some ptrs" "num_envs S = int N" "model_ref S = mj"
      "length ptrs = N"
      "\<forall>j<i. \<exists>a. ptrs ! j = Some a \<and> a < next_addr w \<and> mjdatas w a \<noteq> None"
      "\<forall>j. i \<le> j \<and> j < N \<longrightarrow> ptrs ! j = None"
      "distinct (take i ptrs)" "heap_ok w" "s < next_addr w" "mjmodels w mj \<noteq> None"
    by (auto simp: create_inv_def)
  have 1: "\<forall>j<Suc i. \<exists>a. ?ptrs ! j = Some a \<and> a < Suc ?a \<and> ((mjdatas w)(?a \<mapsto> d)) a \<noteq> None"
  proof (intro allI impI)
    fix j assume "j < Suc i"
    show "\<exists>a. ?ptrs ! j = Some a \<and> a < Suc ?a \<and> ((mjdatas w)(?a \<mapsto> d)) a \<noteq> None"
    proof (cases "j = i")
      case True
      with i facts(4) show ?thesis by simp
    next
      case False
      with \<open>j < Suc i\<close> have "j < i" by simp
      with facts(5) obtain a where "ptrs ! j = Some a" "a < ?a" "mjdatas w a \<noteq> None" by blast
      with False show ?thesis by auto
    qed
  qed
  have 2: "\<forall>j. Suc i \<le> j \<and> j < N \<longrightarrow> ?ptrs ! j = None"
    using facts(6) by auto
  have 3: "distinct (take (Suc i) ?ptrs)"
  proof -
    have "take (Suc i) ?ptrs = take i ptrs @ [Some ?a]"
      using i facts(4) by (simp add: take_Suc_conv_app_nth)
    moreover have "Some ?a \<notin> set (take i ptrs)"
      using create_inv_entries[OF inv, of ?a] by (auto dest: in_set_takeD)
    ultimately show ?thesis using facts(7) by simp
  qed
  have 4: "heap_ok (w\<lparr>mjdatas := (mjdatas w)(?a \<mapsto> d), next_addr := Suc ?a,
              makeData_plan := pl,
              sims := (sims w)(s \<mapsto> S\<lparr>datas := Some ?ptrs\<rparr>)\<rparr>)"
    using facts(8,9) by (auto simp: heap_ok_def)
  show ?thesis
    unfolding create_inv_def using facts 1 2 3 4 i by simp
qed

lemma create_loop_alloc_failure:
  assumes inv: "create_inv w s mj N i ptrs" and i: "i < N"
    and f: "\<not> next_outcome (makeData_plan w)"
  shows "\<exists>w'. create_loop eng w s mj (i # js) = Inr (w', False) \<and>
           mjdatas w' = without_slots ptrs (mjdatas w) \<and>
           sims w' = (sims w)(s := None) \<and> mjmodels w' = mjmodels w"
proof -
  from inv obtain S m where S: "sims w s = Some S" "datas S = Some ptrs" "num_envs S = int N"
      "model_ref S = mj" and m: "mjmodels w mj = Some m" and lp: "length ptrs = N"
    by (auto simp: create_inv_def)
  from inv i have pi: "ptrs ! i = None" by (auto simp: create_inv_def)
  let ?w1 = "w\<lparr>makeData_plan := tl (makeData_plan w)\<rparr>"
  have mk: "mj_makeData_call eng w mj = Inr (?w1, None)"
    using m f by (simp add: mj_makeData_call_def)
  have same: "S\<lparr>datas := Some (ptrs[i := None])\<rparr> = S"
    using S(2) pi by (metis list_update_id MjAccessBatchedSim.surjective
        MjAccessBatchedSim.update_convs(3) MjAccessBatchedSim.select_convs(3))
  have live: "\<forall>a. Some a \<in> set ptrs \<longrightarrow> mjdatas ?w1 a \<noteq> None"
    using create_inv_entries[OF inv] by simp
  have fr: "mjaccess_batched_free ?w1 (Some s)
            = Inr (?w1\<lparr>mjdatas := without_slots ptrs (mjdatas ?w1), sims := (sims ?w1)(s := None)\<rparr>)"
  proof (rule batched_free_char)
    show "sims ?w1 s = Some S" using S(1) by simp
    show "datas S = Some ptrs" by (rule S(2))
    show "length ptrs = nat (num_envs S)" using S(3) lp by simp
    show "\<forall>a. Some a \<in> set ptrs \<longrightarrow> mjdatas ?w1 a \<noteq> None" by (rule live)
    show "distinct (filter (\<lambda>p. p \<noteq> None) ptrs)" by (rule create_inv_distinct[OF inv])
  qed
  let ?w3 = "?w1\<lparr>mjdatas := without_slots ptrs (mjdatas ?w1), sims := (sims ?w1)(s := None)\<rparr>"
  have "create_loop eng w s mj (i # js) = Inr (?w3, False)"
    using mk S i lp fr by (simp add: same map_upd_triv[of "sims w" s S] Let_def)
  thus ?thesis by simp
qed

lemma create_loop_fails:
  assumes "create_inv w s mj N i ptrs"
    and "k < N - i" "k < length (makeData_plan w)" "\<not> makeData_plan w ! k"
  shows "\<exists>w'. create_loop eng w s mj [i..<N] = Inr (w', False) \<and>
           mjdatas w' = without_slots ptrs (mjdatas w) \<and>
           sims w' = (sims w)(s := None) \<and> mjmodels w' = mjmodels w"
  using assms
proof (induction k arbitrary: w i ptrs)
  case 0
  hence i: "i < N" and f: "\<not> next_outcome (makeData_plan w)"
    by (auto simp: next_outcome_def nth_Cons split: list.splits)
  from i have u: "[i..<N] = i # [Suc i..<N]" by (simp add: upt_conv_Cons)
  show ?case unfolding u using 0(1) i f by (rule create_loop_alloc_failure)
next
  case (Suc k)
  hence i: "i < N" by simp
  hence u: "[i..<N] = i # [Suc i..<N]" by (simp add: upt_conv_Cons)
  show ?case
  proof (cases "next_outcome (makeData_plan w)")
    case False
    show ?thesis unfolding u using Suc.prems(1) i False by (rule create_loop_alloc_failure)
  next
    case True
    from Suc.prems(1) obtain S m where S: "sims w s = Some S" "datas S = Some ptrs"
        and m: "mjmodels w mj = Some m" and lp: "length ptrs = N"
      by (auto simp: create_inv_def)
    let ?a = "next_addr w"
    let ?d = "mj_makeData eng m"
    let ?pl = "tl (makeData_plan w)"
    let ?ptrs = "ptrs[i := Some ?a]"
    let ?w1 = "w\<lparr>mjdatas := (mjdatas w)(?a \<mapsto> ?d), next_addr := Suc ?a, makeData_plan := ?pl\<rparr>"
    let ?w2 = "w\<lparr>mjdatas := (mjdatas w)(?a \<mapsto> ?d), next_addr := Suc ?a, makeData_plan := ?pl,
                 sims := (sims w)(s \<mapsto> S\<lparr>datas := Some ?ptrs\<rparr>)\<rparr>"
    have mk: "mj_makeData_call eng w mj = Inr (?w1, Some ?a)"
      using m True by (simp add: mj_makeData_call_def)
    have step: "create_loop eng w s mj (i # [Suc i..<N]) = create_loop eng ?w2 s mj [Suc i..<N]"
      using mk S i lp by (simp add: Let_def)
    have inv2: "create_inv ?w2 s mj N (Suc i) ?ptrs"
      using Suc.prems(1) i S(1) by (rule create_inv_step)
    from Suc.prems(3) have ne: "makeData_plan w \<noteq> []" by auto
    have k1: "k < N - Suc i" using Suc.prems(2) by simp
    have k2: "k < length (makeData_plan ?w2)" using Suc.prems(3) by simp
    have k3: "\<not> makeData_plan ?w2 ! k" using Suc.prems(3,4) ne by (simp add: nth_tl)
    from Suc.IH[OF inv2 k1 k2 k3] obtain w' where
      w': "create_loop eng ?w2 s mj [Suc i..<N] = Inr (w', False)"
        "mjdatas w' = without_slots ?ptrs (mjdatas ?w2)"
        "sims w' = (sims ?w2)(s := None)" "mjmodels w' = mjmodels ?w2"
      by blast
    have "mjdatas w' = without_slots ptrs (mjdatas w)"
      using w'(2) without_slots_step[OF Suc.prems(1) i, of ?d] by simp
    moreover have "sims w' = (sims w)(s := None)" using w'(3) by simp
    moreover have "mjmodels w' = mjmodels w" using w'(4) by simp
    ultimately show ?thesis unfolding u step using w'(1) by blast
  qed
qed

lemma without_slots_all_None: "without_slots (replicate n None) h = h"
  by (auto simp: without_slots_def fun_eq_iff)

lemma batched_create_slot_failure:
  assumes model: "model = Some M" "model_mj M = Some mj" "mjmodels w mj = Some m"
    and cfg: "config = Some cfg" "0 < cfg_num_envs cfg" "cfg_num_envs cfg \<le> INT_MAX"
    and heap: "heap_ok w"
    and libc: "next_outcome (libc_plan w)" "next_outcome (tl (libc_plan w))"
    and k: "k < nat (cfg_num_envs cfg)" "k < length (makeData_plan w)" "\<not> makeData_plan w ! k"
  shows "\<exists>w'. mjaccess_batched_create eng w model config = Inr (w', None) \<and>
           mjdatas w' = mjdatas w \<and> sims w' = sims w \<and> mjmodels w' = mjmodels w"
proof -
  let ?ne = "cfg_num_envs cfg"
  let ?N = "nat ?ne"
  let ?s = "next_addr w"
  let ?ptrs = "replicate ?N (None :: addr option)"
  let ?sim = "\<lparr>model_ref = mj, num_envs = ?ne,
               datas = (if next_outcome (tl (libc_plan w))
                        then Some (replicate (size_t_of_int ?ne) None) else None),
               qpos_buf = None, qvel_buf = None, xpos_buf = None,
               subtree_com_buf = None, cinert_buf = None, cvel_buf = None,
               qfrc_actuator_buf = None, cfrc_ext_buf = None\<rparr>"
  let ?w1 = "w\<lparr>sims := (sims w)(?s \<mapsto> ?sim), next_addr := Suc ?s,
               libc_plan := tl (tl (libc_plan w))\<rparr>"
  have sz: "size_t_of_int ?ne = ?N" using cfg by (simp add: size_t_of_int_nat)
  have inv: "create_inv ?w1 ?s mj ?N 0 ?ptrs"
    using model cfg heap libc sz by (auto simp: create_inv_def heap_ok_def)
  from create_loop_fails[OF inv, of k eng] k obtain w' where
    w': "create_loop eng ?w1 ?s mj [0..<?N] = Inr (w', False)"
      "mjdatas w' = without_slots ?ptrs (mjdatas ?w1)"
      "sims w' = (sims ?w1)(?s := None)" "mjmodels w' = mjmodels ?w1"
    by auto
  have "mjaccess_batched_create eng w model config = Inr (w', None)"
    using model cfg libc w'(1) by (simp add: mjaccess_batched_create_def Let_def)
  moreover have "mjdatas w' = mjdatas w" using w'(2) by (simp add: without_slots_all_None)
  moreover have "sims w ?s = None" using heap by (simp add: heap_ok_def)
  hence "sims w' = sims w" using w'(3) by (auto simp: fun_eq_iff)
  moreover have "mjmodels w' = mjmodels w" using w'(4) by simp
  ultimately show ?thesis by blast
qed

subsection \<open>Repeated steps of identical environments\<close>

lemma data_field_ctrl [simp]: "data_field f (d\<lparr>ctrl := c\<rparr>) = data_field f d"
  by (cases f) simp_all

lemma slot_ok_set_ctrl: "slot_ok m d \<Longrightarrow> length c = nu m \<Longrightarrow> slot_ok m (d\<lparr>ctrl := c\<rparr>)"
  by (simp add: slot_ok_def)

lemma length_slice:
  assumes "length cb = N * n" "i < N"
  shows "length (slice cb i n) = n"
proof -
  from assms(2) have "i * n + n \<le> N * n"
    by (metis Suc_leI mult_Suc mult_le_mono1 add.commute)
  with assms(1) show ?thesis by (simp add: slice_def)
qed

lemma uniform_controls_length: "uniform_controls N n cb \<Longrightarrow> length cb = N * n"
  unfolding uniform_controls_def by blast

lemma uniform_controls_slice:
  "uniform_controls N n cb \<Longrightarrow> i < N \<Longrightarrow> slice cb i n = slice cb 0 n"
  unfolding uniform_controls_def list_all_iff by (metis atLeastLessThan_iff set_upt zero_le)

lemma pool_ok_transfer:
  assumes ok: "pool_ok w s" and m: "pool_model w s = Some m"
    and s: "sims w' = sims w" and mo: "mjmodels w' = mjmodels w"
    and sl: "\<forall>i<pool_size w s. \<exists>d. slot_state w' s i = Some d \<and> slot_ok m d"
  shows "pool_ok w' s \<and> pool_model w' s = Some m \<and> pool_size w' s = pool_size w s"
proof -
  from ok obtain S m' ptrs where
    S: "sims w s = Some S" and m': "mjmodels w (model_ref S) = Some m'" and p: "datas S = Some ptrs"
    and ne: "0 < num_envs S" "num_envs S \<le> INT_MAX" and lp: "length ptrs = nat (num_envs S)"
    and dp: "distinct ptrs"
    and bf: "\<forall>f. \<exists>b. buf_field f S = Some b \<and> int (length b) = num_envs S * int (per_env_expr f m')
            \<and> num_envs S * int (per_env_expr f m') \<le> INT_MAX"
    and nu: "int (nu m') \<le> INT_MAX"
    using pool_ok_ex by blast
  from m S m' have mm: "m' = m" by (simp add: pool_model_def)
  have N: "pool_size w s = nat (num_envs S)" using S by (simp add: pool_size_def)
  have a: "list_all (\<lambda>p. case deref_data w' p of Inl _ \<Rightarrow> False | Inr (a, d) \<Rightarrow> slot_ok m d) ptrs"
    unfolding list_all_length
  proof (intro allI impI)
    fix i assume i: "i < length ptrs"
    with sl lp N obtain d where d: "slot_state w' s i = Some d" "slot_ok m d" by auto
    from d(1) S s p i have "\<exists>a. deref_data w' (ptrs ! i) = Inr (a, d)"
      by (auto simp: slot_state_def slot_def datas_at_def split: sum.splits)
    with d(2) show "case deref_data w' (ptrs ! i) of Inl _ \<Rightarrow> False | Inr (a, d) \<Rightarrow> slot_ok m d"
      by auto
  qed
  have b: "list_all (\<lambda>f. case buf_field f S of
                          None \<Rightarrow> False
                        | Some b \<Rightarrow> int (length b) = num_envs S * int (per_env_expr f m) \<and>
                                    num_envs S * int (per_env_expr f m) \<le> INT_MAX) all_fields"
    unfolding list_all_iff
  proof
    fix f assume "f \<in> set all_fields"
    from bf mm obtain b where "buf_field f S = Some b"
        "int (length b) = num_envs S * int (per_env_expr f m)"
        "num_envs S * int (per_env_expr f m) \<le> INT_MAX" by blast
    thus "case buf_field f S of
                          None \<Rightarrow> False
                        | Some b \<Rightarrow> int (length b) = num_envs S * int (per_env_expr f m) \<and>
                                    num_envs S * int (per_env_expr f m) \<le> INT_MAX" by simp
  qed
  have S': "sims w' s = Some S" using S s by simp
  have m'': "mjmodels w' (model_ref S) = Some m" using m' mo mm by simp
  have nu': "int (nu m) \<le> INT_MAX" using nu mm by simp
  have "pool_ok w' s"
    unfolding pool_ok_def S' m'' p option.case using ne lp dp a b nu' by blast
  moreover have "pool_model w' s = Some m" using S s m' mo mm by (simp add: pool_model_def)
  moreover have "pool_size w' s = pool_size w s" using s by (simp add: pool_size_def)
  ultimately show ?thesis by blast
qed

lemma batched_steps_uniform:
  assumes "pool_ok w s" and "pool_model w s = Some m"
    and keeps: "\<forall>d. slot_ok m d \<longrightarrow> slot_ok m (mj_step eng m d)"
    and "\<forall>i<pool_size w s. slot_state w s i = Some d0"
    and "\<forall>st\<in>set steps. uniform_controls (pool_size w s) (nu m) (snd st)"
  shows "\<exists>w' d. batched_steps eng w (Some s) steps = Inr w' \<and>
           pool_ok w' s \<and> pool_model w' s = Some m \<and> pool_size w' s = pool_size w s \<and>
           (\<forall>i<pool_size w s. slot_state w' s i = Some d)"
  using assms(1,2,4,5)
proof (induction steps arbitrary: w d0)
  case Nil
  hence "batched_steps eng w (Some s) [] = Inr w \<and>
           pool_ok w s \<and> pool_model w s = Some m \<and> pool_size w s = pool_size w s \<and>
           (\<forall>i<pool_size w s. slot_state w s i = Some d0)" by simp
  thus ?case by blast
next
  case (Cons st steps)
  obtain sched cb where st: "st = (sched, cb)" by (cases st)
  let ?N = "pool_size w s"
  from Cons.prems(4) st have uc: "uniform_controls ?N (nu m) cb" by simp
  hence len: "length cb = ?N * nu m" by (rule uniform_controls_length)
  note sl = uniform_controls_slice[OF uc]
  from batched_step_char[OF Cons.prems(1,2) len, of eng sched] obtain w1 where
    w1: "mjaccess_batched_step eng sched w (Some s) (Some cb) = Inr w1"
      "mjmodels w1 = mjmodels w" "sims w1 = sims w"
      "\<forall>i<?N. \<exists>d. slot_state w s i = Some d \<and>
               slot_state w1 s i = Some (mj_step eng m (d\<lparr>ctrl := slice cb i (nu m)\<rparr>))"
    by blast
  let ?d1 = "mj_step eng m (d0\<lparr>ctrl := slice cb 0 (nu m)\<rparr>)"
  have u1: "\<forall>i<?N. slot_state w1 s i = Some ?d1"
  proof (intro allI impI)
    fix i assume i: "i < ?N"
    with w1(4) obtain d where "slot_state w s i = Some d"
        "slot_state w1 s i = Some (mj_step eng m (d\<lparr>ctrl := slice cb i (nu m)\<rparr>))" by blast
    moreover from Cons.prems(3) i have "slot_state w s i = Some d0" by simp
    moreover from i have "slice cb i (nu m) = slice cb 0 (nu m)" by (rule sl)
    ultimately show "slot_state w1 s i = Some ?d1" by simp
  qed
  from Cons.prems(1) obtain S m' ptrs where
    S: "sims w s = Some S" and m': "mjmodels w (model_ref S) = Some m'" and p: "datas S = Some ptrs"
    and ne: "0 < num_envs S" and lp: "length ptrs = nat (num_envs S)"
    and slk: "\<forall>i<length ptrs. \<exists>a d. ptrs ! i = Some a \<and> mjdatas w a = Some d \<and> slot_ok m' d"
    using pool_ok_ex by blast
  from Cons.prems(2) S m' have mm: "m' = m" by (simp add: pool_model_def)
  have N: "?N = nat (num_envs S)" using S by (simp add: pool_size_def)
  with ne have N0: "0 < ?N" by simp
  from N0 N lp have "0 < length ptrs" by simp
  with slk obtain a d where "ptrs ! 0 = Some a" "mjdatas w a = Some d" "slot_ok m' d"
    by blast
  with S p lp N N0 have "slot_state w s 0 = Some d"
    by (simp add: slot_state_def slot_def datas_at_def deref_data_def)
  with Cons.prems(3) N0 \<open>slot_ok m' d\<close> mm have ok0: "slot_ok m d0" by auto
  have "length (slice cb 0 (nu m)) = nu m" using len N0 by (rule length_slice)
  with ok0 keeps have ok1: "slot_ok m ?d1" by (simp add: slot_ok_set_ctrl)
  have "\<forall>i<?N. \<exists>d. slot_state w1 s i = Some d \<and> slot_ok m d" using u1 ok1 by blast
  from pool_ok_transfer[OF Cons.prems(1,2) w1(3,2) this]
  have t: "pool_ok w1 s" "pool_model w1 s = Some m" "pool_size w1 s = ?N" by blast+
  have rest: "\<forall>st\<in>set steps. uniform_controls (pool_size w1 s) (nu m) (snd st)"
    using Cons.prems(4) t(3) by simp
  have u1': "\<forall>i<pool_size w1 s. slot_state w1 s i = Some ?d1" using u1 t(3) by simp
  from Cons.IH[OF t(1,2) u1' rest] obtain w' d where
    w': "batched_steps eng w1 (Some s) steps = Inr w'" "pool_ok w' s" "pool_model w' s = Some m"
    "pool_size w' s = pool_size w1 s" "\<forall>i<pool_size w1 s. slot_state w' s i = Some d"
    by blast
  have "batched_steps eng w (Some s) (st # steps) = Inr w'" using w1(1) st w'(1) by simp
  with w'(2,3,4,5) t(3) show ?case by auto
qed

lemma batched_parity_char:
  assumes "pool_ok w s" and "pool_model w s = Some m"
    and "\<forall>d. slot_ok m d \<longrightarrow> slot_ok m (mj_step eng m d)"
    and "\<forall>i<pool_size w s. slot_state w s i = Some d0"
    and "\<forall>st\<in>set steps. uniform_controls (pool_size w s) (nu m) (snd st)"
  shows "\<exists>w'. batched_steps eng w (Some s) steps = Inr w' \<and>
           (\<forall>f n_out. \<exists>w'' buf.
               BATCHED_GATHER f w' (Some s) n_out
                 = Inr (w'', Some buf,
                        map_option (\<lambda>_. int (pool_size w s) * int (per_env_expr f m)) n_out) \<and>
               (\<forall>i<pool_size w s. \<forall>j<pool_size w s.
                   slice buf i (per_env_expr f m) = slice buf j (per_env_expr f m)))"
proof -
  from batched_steps_uniform[OF assms] obtain w' d where
    w': "batched_steps eng w (Some s) steps = Inr w'" "pool_ok w' s" "pool_model w' s = Some m"
      "pool_size w' s = pool_size w s" "\<forall>i<pool_size w s. slot_state w' s i = Some d"
    by blast
  have "\<exists>w'' buf.
               BATCHED_GATHER f w' (Some s) n_out
                 = Inr (w'', Some buf,
                        map_option (\<lambda>_. int (pool_size w s) * int (per_env_expr f m)) n_out) \<and>
               (\<forall>i<pool_size w s. \<forall>j<pool_size w s.
                   slice buf i (per_env_expr f m) = slice buf j (per_env_expr f m))" for f n_out
  proof -
    from gather_char[OF w'(2,3), of f n_out] obtain w'' buf where
      g: "BATCHED_GATHER f w' (Some s) n_out
             = Inr (w'', Some buf,
                    map_option (\<lambda>_. int (pool_size w' s) * int (per_env_expr f m)) n_out)"
        "\<forall>i<pool_size w' s. \<exists>d. slot_state w' s i = Some d \<and>
                slice buf i (per_env_expr f m) = data_field f d"
      by blast
    from g(2) w'(4,5) have "\<forall>i<pool_size w s. slice buf i (per_env_expr f m) = data_field f d"
      by auto
    with g(1) w'(4) show ?thesis by auto
  qed
  with w'(1) show ?thesis by blast
qed

subsection \<open>The per-slot setters within the field\<close>

lemma double_count_nonneg: "0 \<le> n \<Longrightarrow> n \<le> INT_MAX \<Longrightarrow> double_count n = nat n"
  using double_count_int[of "nat n"] by (simp add: INT_MAX_def)

lemma set_env_qpos_out_of_range:
  "sims w s = Some S \<Longrightarrow> env_idx < 0 \<or> num_envs S \<le> env_idx \<Longrightarrow>
   mjaccess_batched_set_env_qpos w (Some s) env_idx vals n = Inr w"
  by (auto simp: mjaccess_batched_set_env_qpos_def split: option.splits)

lemma set_env_qvel_out_of_range:
  "sims w s = Some S \<Longrightarrow> env_idx < 0 \<or> num_envs S \<le> env_idx \<Longrightarrow>
   mjaccess_batched_set_env_qvel w (Some s) env_idx vals n = Inr w"
  by (auto simp: mjaccess_batched_set_env_qvel_def split: option.splits)

lemma pool_slot:
  assumes "pool_ok w s" "pool_model w s = Some m" "i < pool_size w s"
  shows "\<exists>S a d. sims w s = Some S \<and> slot w S i = Inr (a, d) \<and> slot_ok m d \<and>
           slot_state w s i = Some d \<and> slot_addr w s i = Some a"
proof -
  from assms(1) obtain S m' ptrs where
    S: "sims w s = Some S" and m': "mjmodels w (model_ref S) = Some m'" and p: "datas S = Some ptrs"
    and lp: "length ptrs = nat (num_envs S)"
    and sl: "\<forall>i<length ptrs. \<exists>a d. ptrs ! i = Some a \<and> mjdatas w a = Some d \<and> slot_ok m' d"
    using pool_ok_ex by blast
  from assms(2) S m' have mm: "m' = m" by (simp add: pool_model_def)
  from assms(3) S lp have i: "i < length ptrs" by (simp add: pool_size_def)
  with sl obtain a d where "ptrs ! i = Some a" "mjdatas w a = Some d" "slot_ok m' d" by blast
  with S p i mm show ?thesis
    by (simp add: slot_def datas_at_def deref_data_def slot_state_def slot_addr_def)
qed

lemma set_env_qpos_within:
  assumes ok: "pool_ok w s" and m: "pool_model w s = Some m"
    and idx: "0 \<le> env_idx" "nat env_idx < pool_size w s"
    and n: "0 \<le> n" "nat n \<le> nq m" "nat n \<le> length vals" "n \<le> INT_MAX"
  shows "\<exists>a d. slot_addr w s (nat env_idx) = Some a \<and> slot_state w s (nat env_idx) = Some d \<and>
           mjaccess_batched_set_env_qpos w (Some s) env_idx (Some vals) n
             = Inr (w\<lparr>mjdatas := (mjdatas w)(a \<mapsto>
                      d\<lparr>qpos := take (nat n) vals @ drop (nat n) (qpos d)\<rparr>)\<rparr>)"
proof -
  from pool_slot[OF ok m idx(2)] obtain S a d where
    S: "sims w s = Some S" "slot w S (nat env_idx) = Inr (a, d)" "slot_ok m d"
      "slot_state w s (nat env_idx) = Some d" "slot_addr w s (nat env_idx) = Some a"
    by blast
  from S(3) have lq: "length (qpos d) = nq m"
    using slot_ok_field[of m d G_qpos] by simp
  from idx S(1) have lt: "env_idx < num_envs S" by (simp add: pool_size_def)
  have dc: "double_count n = nat n" using n(1,4) by (rule double_count_nonneg)
  have "memcpy (qpos d) 0 vals 0 (nat n) = Inr (take (nat n) vals @ drop (nat n) (qpos d))"
    using n lq by (simp add: memcpy_def)
  with S idx(1) lt dc show ?thesis
    by (simp add: mjaccess_batched_set_env_qpos_def)
qed

lemma set_env_qvel_within:
  assumes ok: "pool_ok w s" and m: "pool_model w s = Some m"
    and idx: "0 \<le> env_idx" "nat env_idx < pool_size w s"
    and n: "0 \<le> n" "nat n \<le> nv m" "nat n \<le> length vals" "n \<le> INT_MAX"
  shows "\<exists>a d. slot_addr w s (nat env_idx) = Some a \<and> slot_state w s (nat env_idx) = Some d \<and>
           mjaccess_batched_set_env_qvel w (Some s) env_idx (Some vals) n
             = Inr (w\<lparr>mjdatas := (mjdatas w)(a \<mapsto>
                      d\<lparr>qvel := take (nat n) vals @ drop (nat n) (qvel d)\<rparr>)\<rparr>)"
proof -
  from pool_slot[OF ok m idx(2)] obtain S a d where
    S: "sims w s = Some S" "slot w S (nat env_idx) = Inr (a, d)" "slot_ok m d"
      "slot_state w s (nat env_idx) = Some d" "slot_addr w s (nat env_idx) = Some a"
    by blast
  from S(3) have lq: "length (qvel d) = nv m"
    using slot_ok_field[of m d G_qvel] by simp
  from idx S(1) have lt: "env_idx < num_envs S" by (simp add: pool_size_def)
  have dc: "double_count n = nat n" using n(1,4) by (rule double_count_nonneg)
  have "memcpy (qvel d) 0 vals 0 (nat n) = Inr (take (nat n) vals @ drop (nat n) (qvel d))"
    using n lq by (simp add: memcpy_def)
  with S idx(1) lt dc show ?thesis
    by (simp add: mjaccess_batched_set_env_qvel_def)
qed

text \<open>Beyond the field the copy leaves the array, whatever the values buffer holds.\<close>

lemma set_env_qpos_beyond:
  assumes ok: "pool_ok w s" and m: "pool_model w s = Some m"
    and idx: "0 \<le> env_idx" "nat env_idx < pool_size w s"
    and n: "int (nq m) < n" "n \<le> INT_MAX"
  shows "mjaccess_batched_set_env_qpos w (Some s) env_idx (Some vals) n = Inl OutOfBounds"
proof -
  from pool_slot[OF ok m idx(2)] obtain S a d where
    S: "sims w s = Some S" "slot w S (nat env_idx) = Inr (a, d)" "slot_ok m d"
    by blast
  from S(3) have lq: "length (qpos d) = nq m"
    using slot_ok_field[of m d G_qpos] by simp
  from idx S(1) have lt: "env_idx < num_envs S" by (simp add: pool_size_def)
  have dc: "double_count n = nat n" using n by (intro double_count_nonneg) simp_all
  have "memcpy (qpos d) 0 vals 0 (nat n) = Inl OutOfBounds"
    using n lq by (simp add: memcpy_def)
  with S idx(1) lt dc show ?thesis
    by (simp add: mjaccess_batched_set_env_qpos_def)
qed

subsection \<open>Destroying twice\<close>

lemma batched_free_twice:
  assumes "mjaccess_batched_free w (Some s) = Inr w'"
  shows "mjaccess_batched_free w' (Some s) = Inl Dangling"
proof -
  from assms have "sims w' s = None"
    by (auto simp: mjaccess_batched_free_def batched_free_buffers_def
        split: option.splits sum.splits)
  thus ?thesis by (simp add: mjaccess_batched_free_def)
qed

subsection \<open>Creation when every allocation succeeds\<close>

lemma create_loop_succeeds:
  assumes "create_inv w s mj N i ptrs" and "mjmodels w mj = Some m"
    and "\<forall>k<N - i. k < length (makeData_plan w) \<longrightarrow> makeData_plan w ! k"
    and "\<forall>a. Some a \<in> set ptrs \<longrightarrow> mjdatas w a = Some (mj_makeData eng m)"
  shows "\<exists>w' ptrs' S. create_loop eng w s mj [i..<N] = Inr (w', True) \<and>
           create_inv w' s mj N N ptrs' \<and>
           (\<forall>a. Some a \<in> set ptrs' \<longrightarrow> mjdatas w' a = Some (mj_makeData eng m)) \<and>
           mjmodels w' = mjmodels w \<and> libc_plan w' = libc_plan w \<and> uninit w' = uninit w \<and>
           sims w s = Some S \<and> sims w' = (sims w)(s \<mapsto> S\<lparr>datas := Some ptrs'\<rparr>)"
  using assms
proof (induction "N - i" arbitrary: w i ptrs)
  case 0
  from 0(2) have iN: "i = N" using 0(1) by (simp add: create_inv_def)
  from 0(2) obtain S where S: "sims w s = Some S" "datas S = Some ptrs"
    by (auto simp: create_inv_def)
  have "S\<lparr>datas := Some ptrs\<rparr> = S" using S(2) by (cases S) simp
  hence e: "sims w = (sims w)(s \<mapsto> S\<lparr>datas := Some ptrs\<rparr>)"
    using S(1) by (simp add: map_upd_triv[of "sims w" s S])
  have A: "create_loop eng w s mj [i..<N] = Inr (w, True)" using iN by simp
  have B: "create_inv w s mj N N ptrs" using 0(2) iN by simp
  from A B 0(5) S(1) e show ?case by blast
next
  case (Suc n)
  hence i: "i < N" by simp
  hence u: "[i..<N] = i # [Suc i..<N]" by (simp add: upt_conv_Cons)
  from Suc.prems(1) obtain S where S: "sims w s = Some S" "datas S = Some ptrs"
      and lp: "length ptrs = N"
    by (auto simp: create_inv_def)
  have ok: "next_outcome (makeData_plan w)"
  proof (cases "makeData_plan w")
    case Nil
    then show ?thesis by (simp add: next_outcome_def)
  next
    case (Cons b bs)
    with Suc.prems(3) i have "makeData_plan w ! 0" by (metis length_greater_0_conv list.distinct(1) zero_less_diff)
    with Cons show ?thesis by (simp add: next_outcome_def)
  qed
  let ?a = "next_addr w"
  let ?d = "mj_makeData eng m"
  let ?pl = "tl (makeData_plan w)"
  let ?ptrs = "ptrs[i := Some ?a]"
  let ?S2 = "S\<lparr>datas := Some ?ptrs\<rparr>"
  let ?w1 = "w\<lparr>mjdatas := (mjdatas w)(?a \<mapsto> ?d), next_addr := Suc ?a, makeData_plan := ?pl\<rparr>"
  let ?w2 = "w\<lparr>mjdatas := (mjdatas w)(?a \<mapsto> ?d), next_addr := Suc ?a, makeData_plan := ?pl,
               sims := (sims w)(s \<mapsto> ?S2)\<rparr>"
  have mk: "mj_makeData_call eng w mj = Inr (?w1, Some ?a)"
    using Suc.prems(2) ok by (simp add: mj_makeData_call_def)
  have step: "create_loop eng w s mj (i # [Suc i..<N]) = create_loop eng ?w2 s mj [Suc i..<N]"
    using mk S i lp by (simp add: Let_def)
  have inv2: "create_inv ?w2 s mj N (Suc i) ?ptrs"
    using Suc.prems(1) i S(1) by (rule create_inv_step)
  have n2: "n = N - Suc i" using Suc.hyps(2) by simp
  have m2: "mjmodels ?w2 mj = Some m" using Suc.prems(2) by simp
  have good2: "\<forall>k<N - Suc i. k < length (makeData_plan ?w2) \<longrightarrow> makeData_plan ?w2 ! k"
  proof (intro allI impI)
    fix k assume k: "k < N - Suc i" "k < length (makeData_plan ?w2)"
    hence "Suc k < N - i" "Suc k < length (makeData_plan w)" by simp_all
    with Suc.prems(3) have "makeData_plan w ! Suc k" by blast
    with k(2) show "makeData_plan ?w2 ! k" by (simp add: nth_tl)
  qed
  from Suc.prems(1) i have il: "i < length ptrs" and pi: "ptrs ! i = None"
    by (auto simp: create_inv_def)
  have init2: "\<forall>b. Some b \<in> set ?ptrs \<longrightarrow> mjdatas ?w2 b = Some ?d"
  proof (intro allI impI)
    fix b assume "Some b \<in> set ?ptrs"
    hence "b = ?a \<or> Some b \<in> set ptrs" by (simp add: set_update_None[OF il pi])
    thus "mjdatas ?w2 b = Some ?d"
    proof
      assume "b = ?a" thus ?thesis by simp
    next
      assume b: "Some b \<in> set ptrs"
      with create_inv_entries[OF Suc.prems(1)] have "b \<noteq> ?a" by auto
      with b Suc.prems(4) show ?thesis by simp
    qed
  qed
  from Suc.hyps(1)[OF n2 inv2 m2 good2 init2] obtain w' ptrs' S' where
    r: "create_loop eng ?w2 s mj [Suc i..<N] = Inr (w', True)"
      "create_inv w' s mj N N ptrs'"
      "\<forall>a. Some a \<in> set ptrs' \<longrightarrow> mjdatas w' a = Some ?d"
      "mjmodels w' = mjmodels ?w2" "libc_plan w' = libc_plan ?w2" "uninit w' = uninit ?w2"
      "sims ?w2 s = Some S'" "sims w' = (sims ?w2)(s \<mapsto> S'\<lparr>datas := Some ptrs'\<rparr>)"
    by blast
  from r(7) have S': "S' = ?S2" by simp
  have "sims w' = (sims w)(s \<mapsto> S\<lparr>datas := Some ptrs'\<rparr>)"
    using r(8) unfolding S' by simp
  moreover have "mjmodels w' = mjmodels w" "libc_plan w' = libc_plan w" "uninit w' = uninit w"
    using r(4,5,6) by simp_all
  ultimately show ?case unfolding u step using r(1,2,3) S(1) by blast
qed

lemma buf_field_update_other:
  "buf_field f (buf_field_update g b S) = (if f = g then b else buf_field f S)"
  by (cases f; cases g; simp)

lemma alloc_buffers_char:
  assumes "mjmodels w mj = Some m" and "sims w s = Some S"
    and "list_all (\<lambda>b. b) (take (length fs) (libc_plan w))" and "distinct fs"
  shows "\<exists>w' S'. alloc_buffers w s mj ne fs = Inr w' \<and>
           w' = w\<lparr>libc_plan := libc_plan w', sims := (sims w)(s \<mapsto> S')\<rparr> \<and>
           model_ref S' = model_ref S \<and> num_envs S' = num_envs S \<and> datas S' = datas S \<and>
           (\<forall>f. buf_field f S' =
                 (if f \<in> set fs then Some (replicate (double_count (buf_alloc_len f ne m)) (uninit w))
                  else buf_field f S))"
  using assms
proof (induction fs arbitrary: w S)
  case Nil
  have e: "w = w\<lparr>libc_plan := libc_plan w, sims := (sims w)(s \<mapsto> S)\<rparr>"
    using Nil(2) by (simp add: map_upd_triv[of "sims w" s S])
  have A: "alloc_buffers w s mj ne [] = Inr w" by simp
  have B: "\<forall>f. buf_field f S = (if f \<in> set [] then
      Some (replicate (double_count (buf_alloc_len f ne m)) (uninit w)) else buf_field f S)" by simp
  from A e B show ?case by blast
next
  case (Cons f fs)
  have ok: "next_outcome (libc_plan w)"
    using Cons.prems(3) by (cases "libc_plan w") (simp_all add: next_outcome_def)
  let ?b = "Some (replicate (double_count (buf_alloc_len f ne m)) (uninit w))"
  let ?S1 = "buf_field_update f ?b S"
  let ?w1 = "w\<lparr>libc_plan := tl (libc_plan w), sims := (sims w)(s \<mapsto> ?S1)\<rparr>"
  have step: "alloc_buffers w s mj ne (f # fs) = alloc_buffers ?w1 s mj ne fs"
    using Cons.prems(1,2) ok by (simp add: malloc_doubles_def)
  have plan: "list_all (\<lambda>b. b) (take (length fs) (libc_plan ?w1))"
    using Cons.prems(3) by (cases "libc_plan w") simp_all
  have p1: "mjmodels ?w1 mj = Some m" using Cons.prems(1) by simp
  have p2: "sims ?w1 s = Some ?S1" by simp
  have p4: "distinct fs" using Cons.prems(4) by simp
  from Cons.IH[OF p1 p2 plan p4] obtain w' S' where
    r: "alloc_buffers ?w1 s mj ne fs = Inr w'"
      "w' = ?w1\<lparr>libc_plan := libc_plan w', sims := (sims ?w1)(s \<mapsto> S')\<rparr>"
      "model_ref S' = model_ref ?S1" "num_envs S' = num_envs ?S1" "datas S' = datas ?S1"
      "\<forall>g. buf_field g S' =
                 (if g \<in> set fs then Some (replicate (double_count (buf_alloc_len g ne m)) (uninit ?w1))
                  else buf_field g ?S1)"
    by blast
  from r(2) have e: "w' = w\<lparr>libc_plan := libc_plan w', sims := (sims w)(s \<mapsto> S')\<rparr>" by simp
  have bf: "\<forall>g. buf_field g S' =
                 (if g \<in> set (f # fs) then Some (replicate (double_count (buf_alloc_len g ne m)) (uninit w))
                  else buf_field g S)"
    using r(6) Cons.prems(4) by (auto simp: buf_field_update_other)
  have "model_ref S' = model_ref S" "num_envs S' = num_envs S" "datas S' = datas S"
    using r(3,4,5) by simp_all
  with r(1) e bf show ?case unfolding step by blast
qed

lemma slot_ok_iterations [simp]: "slot_ok (m\<lparr>opt_iterations := x\<rparr>) d = slot_ok m d"
  by (simp add: slot_ok_def all_fields_def)

lemma per_env_iterations [simp]: "per_env_expr f (m\<lparr>opt_iterations := x\<rparr>) = per_env_expr f m"
  by (cases f) simp_all

lemma create_inv_full:
  assumes "create_inv w s mj N N ptrs"
  shows "length ptrs = N" "distinct ptrs"
    "\<forall>j<N. \<exists>a. ptrs ! j = Some a \<and> mjdatas w a \<noteq> None"
  using assms by (auto simp: create_inv_def)

lemma create_loop_keeps:
  assumes "create_loop eng w s mj js = Inr (w', True)" and "a < next_addr w"
  shows "mjdatas w' a = mjdatas w a"
  using assms
proof (induction js arbitrary: w)
  case Nil
  then show ?case by simp
next
  case (Cons i js)
  from Cons.prems(1) obtain w1 p where mk: "mj_makeData_call eng w mj = Inr (w1, p)"
    by (auto split: sum.splits)
  from Cons.prems(1) mk obtain S ptrs where S: "sims w1 s = Some S" "datas S = Some ptrs"
      "i < length ptrs"
    by (auto split: option.splits if_splits)
  let ?w2 = "w1\<lparr>sims := (sims w1)(s \<mapsto> S\<lparr>datas := Some (ptrs[i := p])\<rparr>)\<rparr>"
  from Cons.prems(1) mk S obtain b where p: "p = Some b"
    by (cases p) (auto simp: Let_def split: sum.splits)
  with Cons.prems(1) mk S have rec: "create_loop eng ?w2 s mj js = Inr (w', True)"
    by (simp add: Let_def)
  from mk p have w1: "mjdatas w1 = (mjdatas w)(next_addr w \<mapsto> the (mjdatas w1 (next_addr w)))"
      "next_addr w1 = Suc (next_addr w)"
    by (auto simp: mj_makeData_call_def split: option.splits if_splits)
  from Cons.prems(2) w1(2) have "a < next_addr ?w2" by simp
  from Cons.IH[OF rec this] have "mjdatas w' a = mjdatas w1 a" by simp
  also have "\<dots> = mjdatas w a" using w1(1) Cons.prems(2) by (metis fun_upd_other less_irrefl)
  finally show ?case .
qed

lemma batched_create_ok:
  assumes model: "model = Some M" "model_mj M = Some mj" "mjmodels w mj = Some m"
    and cfg: "config = Some cfg" "0 < cfg_num_envs cfg"
    and heap: "heap_ok w"
    and libc: "list_all (\<lambda>b. b) (take 10 (libc_plan w))"
    and mk: "\<forall>k<nat (cfg_num_envs cfg). k < length (makeData_plan w) \<longrightarrow> makeData_plan w ! k"
    and eng: "slot_ok m (mj_makeData eng m)"
    and range: "cfg_num_envs cfg \<le> INT_MAX" "int (nu m) \<le> INT_MAX"
      "\<forall>f. cfg_num_envs cfg * int (per_env_expr f m) \<le> INT_MAX"
  shows "\<exists>w'. mjaccess_batched_create eng w model config = Inr (w', Some (next_addr w)) \<and>
           pool_ok w' (next_addr w) \<and> pool_size w' (next_addr w) = nat (cfg_num_envs cfg) \<and>
           pool_model w' (next_addr w)
             = Some (if 0 < solver_iterations cfg
                     then m\<lparr>opt_iterations := solver_iterations cfg\<rparr> else m) \<and>
           (\<forall>i<nat (cfg_num_envs cfg). slot_state w' (next_addr w) i = Some (mj_makeData eng m)) \<and>
           (\<forall>a. mjdatas w a \<noteq> None \<longrightarrow> mjdatas w' a = mjdatas w a)"
proof -
  let ?ne = "cfg_num_envs cfg"
  let ?N = "nat ?ne"
  let ?s = "next_addr w"
  let ?d = "mj_makeData eng m"
  define m' where
    "m' = (if 0 < solver_iterations cfg then m\<lparr>opt_iterations := solver_iterations cfg\<rparr> else m)"
  have pm: "per_env_expr f m' = per_env_expr f m" for f by (simp add: m'_def)
  have num: "nu m' = nu m" by (simp add: m'_def)
  have som: "slot_ok m' d = slot_ok m d" for d by (simp add: m'_def)
  let ?sim = "\<lparr>model_ref = mj, num_envs = ?ne,
               datas = (if next_outcome (tl (libc_plan w))
                        then Some (replicate (size_t_of_int ?ne) None) else None),
               qpos_buf = None, qvel_buf = None, xpos_buf = None,
               subtree_com_buf = None, cinert_buf = None, cvel_buf = None,
               qfrc_actuator_buf = None, cfrc_ext_buf = None\<rparr>"
  let ?w1 = "w\<lparr>sims := (sims w)(?s \<mapsto> ?sim), next_addr := Suc ?s,
               libc_plan := tl (tl (libc_plan w))\<rparr>"
  have sz: "size_t_of_int ?ne = ?N" using cfg range(1) by (simp add: size_t_of_int_nat)
  have l1: "next_outcome (libc_plan w)" "next_outcome (tl (libc_plan w))"
    and l2: "list_all (\<lambda>b. b) (take 8 (tl (tl (libc_plan w))))"
  proof -
    show "next_outcome (libc_plan w)"
      using libc by (cases "libc_plan w") (simp_all add: next_outcome_def)
    show "next_outcome (tl (libc_plan w))"
      using libc by (cases "libc_plan w"; cases "tl (libc_plan w)") (simp_all add: next_outcome_def)
    show "list_all (\<lambda>b. b) (take 8 (tl (tl (libc_plan w))))"
      using libc by (cases "libc_plan w"; cases "tl (libc_plan w)") simp_all
  qed
  have inv: "create_inv ?w1 ?s mj ?N 0 (replicate ?N None)"
    using model cfg heap l1 sz by (auto simp: create_inv_def heap_ok_def)
  have m1: "mjmodels ?w1 mj = Some m" using model by simp
  have good: "\<forall>k<?N - 0. k < length (makeData_plan ?w1) \<longrightarrow> makeData_plan ?w1 ! k"
    using mk by simp
  have init: "\<forall>a. Some a \<in> set (replicate ?N None) \<longrightarrow> mjdatas ?w1 a = Some ?d" by simp
  from create_loop_succeeds[OF inv m1 good init] obtain w2 ptrs S1 where
    r: "create_loop eng ?w1 ?s mj [0..<?N] = Inr (w2, True)"
      "create_inv w2 ?s mj ?N ?N ptrs"
      "\<forall>a. Some a \<in> set ptrs \<longrightarrow> mjdatas w2 a = Some ?d"
      "mjmodels w2 = mjmodels ?w1" "libc_plan w2 = libc_plan ?w1" "uninit w2 = uninit ?w1"
      "sims ?w1 ?s = Some S1" "sims w2 = (sims ?w1)(?s \<mapsto> S1\<lparr>datas := Some ptrs\<rparr>)"
    by blast
  from r(7) have S1: "S1 = ?sim" by simp
  let ?S2 = "S1\<lparr>datas := Some ptrs\<rparr>"
  define w3 where
    "w3 = (if solver_iterations cfg > 0
           then w2\<lparr>mjmodels := (mjmodels w2)(mj \<mapsto> m\<lparr>opt_iterations := solver_iterations cfg\<rparr>)\<rparr>
           else w2)"
  have m2: "mjmodels w2 mj = Some m" using r(4) model by simp
  have m3: "mjmodels w3 mj = Some m'" using m2 by (simp add: m'_def w3_def)
  have k3: "sims w3 = sims w2" "mjdatas w3 = mjdatas w2" "libc_plan w3 = libc_plan w2"
    "uninit w3 = uninit w2" by (simp_all add: w3_def)
  have s3: "sims w3 ?s = Some ?S2" using r(8) k3 by simp
  have la: "length all_fields = 8" by (simp add: all_fields_def)
  have l3: "list_all (\<lambda>b. b) (take (length all_fields) (libc_plan w3))"
    using l2 r(5) k3 by (simp add: la)
  have d3: "distinct all_fields" by (simp add: all_fields_def)
  from alloc_buffers_char[OF m3 s3 l3 d3, of ?ne] obtain w4 S' where
    a: "alloc_buffers w3 ?s mj ?ne all_fields = Inr w4"
      "w4 = w3\<lparr>libc_plan := libc_plan w4, sims := (sims w3)(?s \<mapsto> S')\<rparr>"
      "model_ref S' = model_ref ?S2" "num_envs S' = num_envs ?S2" "datas S' = datas ?S2"
      "\<forall>f. buf_field f S' =
           (if f \<in> set all_fields
            then Some (replicate (double_count (buf_alloc_len f ?ne m')) (uninit w3))
            else buf_field f ?S2)"
    by blast
  have A: "mjaccess_batched_create eng w model config = Inr (w4, Some ?s)"
    using model cfg l1 r(1) m2 a(1) by (simp add: mjaccess_batched_create_def Let_def w3_def)
  from a(2) have "sims w4 = sims (w3\<lparr>libc_plan := libc_plan w4, sims := (sims w3)(?s \<mapsto> S')\<rparr>)"
    and "mjmodels w4 = mjmodels (w3\<lparr>libc_plan := libc_plan w4, sims := (sims w3)(?s \<mapsto> S')\<rparr>)"
    and "mjdatas w4 = mjdatas (w3\<lparr>libc_plan := libc_plan w4, sims := (sims w3)(?s \<mapsto> S')\<rparr>)"
    by (rule arg_cong)+
  hence w4: "sims w4 ?s = Some S'" "mjmodels w4 mj = Some m'" "mjdatas w4 = mjdatas w2"
    using m3 k3 by simp_all
  from a(3,4,5) S1 have S': "model_ref S' = mj" "num_envs S' = ?ne" "datas S' = Some ptrs"
    by simp_all
  note full = create_inv_full[OF r(2)]
  have slots: "\<exists>a. ptrs ! i = Some a \<and> mjdatas w4 a = Some ?d" if "i < ?N" for i
  proof -
    from full(3) that obtain a where "ptrs ! i = Some a" by blast
    moreover with that full(1) have "Some a \<in> set ptrs" by (metis nth_mem)
    ultimately show ?thesis using r(3) w4(3) by simp
  qed
  have bufs: "buf_field f S' = Some (replicate (nat (?ne * int (per_env_expr f m))) (uninit w2))" for f
  proof -
    have "0 \<le> ?ne * int (per_env_expr f m)" using cfg by simp
    with range(3) have "double_count (?ne * int (per_env_expr f m)) = nat (?ne * int (per_env_expr f m))"
      by (intro double_count_nonneg) simp_all
    moreover have "buf_alloc_len f ?ne m' = ?ne * int (per_env_expr f m)"
      by (simp add: per_env_alloc pm)
    moreover note k3(4)
    ultimately show ?thesis using a(6) all_fields_UNIV[of f] by simp
  qed
  have B: "pool_ok w4 ?s"
  proof -
    have 1: "list_all (\<lambda>p. case deref_data w4 p of Inl _ \<Rightarrow> False | Inr (a, d) \<Rightarrow> slot_ok m' d) ptrs"
      unfolding list_all_length
    proof (intro allI impI)
      fix i assume "i < length ptrs"
      with full(1) slots obtain a where "ptrs ! i = Some a" "mjdatas w4 a = Some ?d" by auto
      with eng show "case deref_data w4 (ptrs ! i) of Inl _ \<Rightarrow> False | Inr (a, d) \<Rightarrow> slot_ok m' d"
        by (simp add: deref_data_def som)
    qed
    have 2: "list_all (\<lambda>f. case buf_field f S' of
                          None \<Rightarrow> False
                        | Some b \<Rightarrow> int (length b) = ?ne * int (per_env_expr f m') \<and>
                                    ?ne * int (per_env_expr f m') \<le> INT_MAX) all_fields"
      unfolding list_all_iff
    proof
      fix f
      have "0 \<le> ?ne * int (per_env_expr f m)" using cfg by simp
      thus "case buf_field f S' of
                          None \<Rightarrow> False
                        | Some b \<Rightarrow> int (length b) = ?ne * int (per_env_expr f m') \<and>
                                    ?ne * int (per_env_expr f m') \<le> INT_MAX"
        using bufs[of f] range(3) by (simp add: pm)
    qed
    have 3: "int (nu m') \<le> INT_MAX" using range(2) by (simp add: num)
    show ?thesis
      unfolding pool_ok_def w4(1) S'(1) w4(2) S'(3) option.case S'(2)
      using cfg(2) full(1,2) range(1) 1 2 3 by simp
  qed
  have C: "pool_size w4 ?s = ?N" using w4(1) S'(2) by (simp add: pool_size_def)
  have D: "pool_model w4 ?s = Some m'" using w4(1,2) S'(1) by (simp add: pool_model_def)
  have E: "\<forall>i<?N. slot_state w4 ?s i = Some ?d"
  proof (intro allI impI)
    fix i assume i: "i < ?N"
    with slots obtain a where "ptrs ! i = Some a" "mjdatas w4 a = Some ?d" by blast
    with i w4(1) S'(3) full(1) show "slot_state w4 ?s i = Some ?d"
      by (simp add: slot_state_def slot_def datas_at_def deref_data_def)
  qed
  have F: "\<forall>a. mjdatas w a \<noteq> None \<longrightarrow> mjdatas w4 a = mjdatas w a"
  proof (intro allI impI)
    fix a assume "mjdatas w a \<noteq> None"
    with heap have "a < next_addr ?w1" by (auto simp: heap_ok_def not_le[symmetric])
    from create_loop_keeps[OF r(1) this] w4(3) show "mjdatas w4 a = mjdatas w a" by simp
  qed
  from A B C D E F show ?thesis unfolding m'_def by blast
qed

subsection \<open>Destroying a well-formed pool\<close>

lemma batched_free_pool:
  assumes ok: "pool_ok w s"
  shows "\<exists>w'. mjaccess_batched_free w (Some s) = Inr w' \<and>
           sims w' = (sims w)(s := None) \<and> mjmodels w' = mjmodels w \<and>
           (\<forall>i<pool_size w s. \<exists>a. slot_addr w s i = Some a \<and> mjdatas w' a = None) \<and>
           (\<forall>a. (\<forall>i<pool_size w s. slot_addr w s i \<noteq> Some a) \<longrightarrow> mjdatas w' a = mjdatas w a)"
proof -
  from ok obtain S m ptrs where
    S: "sims w s = Some S" and "mjmodels w (model_ref S) = Some m" and p: "datas S = Some ptrs"
    and lp: "length ptrs = nat (num_envs S)" and dp: "distinct ptrs"
    and sl: "\<forall>i<length ptrs. \<exists>a d. ptrs ! i = Some a \<and> mjdatas w a = Some d \<and> slot_ok m d"
    using pool_ok_ex by blast
  have N: "pool_size w s = length ptrs" using S lp by (simp add: pool_size_def)
  have live: "\<forall>a. Some a \<in> set ptrs \<longrightarrow> mjdatas w a \<noteq> None"
  proof (intro allI impI)
    fix a assume "Some a \<in> set ptrs"
    then obtain i where "i < length ptrs" "ptrs ! i = Some a" by (auto simp: in_set_conv_nth)
    with sl show "mjdatas w a \<noteq> None" by fastforce
  qed
  have dist: "distinct (filter (\<lambda>p. p \<noteq> None) ptrs)" using dp by (rule distinct_filter)
  let ?w' = "w\<lparr>mjdatas := without_slots ptrs (mjdatas w), sims := (sims w)(s := None)\<rparr>"
  have A: "mjaccess_batched_free w (Some s) = Inr ?w'"
    using S p lp live dist by (rule batched_free_char)
  have addr: "slot_addr w s i = Some a \<longleftrightarrow> ptrs ! i = Some a" if "i < length ptrs" for i a
  proof -
    from sl that obtain b d where "ptrs ! i = Some b" "mjdatas w b = Some d" by blast
    with that S p show ?thesis
      by (simp add: slot_addr_def slot_def datas_at_def deref_data_def)
  qed
  have B: "\<exists>a. slot_addr w s i = Some a \<and> mjdatas ?w' a = None" if "i < length ptrs" for i
  proof -
    from sl that obtain a where a: "ptrs ! i = Some a" by blast
    with that have "Some a \<in> set ptrs" by (metis nth_mem)
    with a addr[OF that] show ?thesis by (simp add: without_slots_def)
  qed
  have C: "mjdatas ?w' a = mjdatas w a" if "\<forall>i<length ptrs. slot_addr w s i \<noteq> Some a" for a
  proof -
    have "Some a \<notin> set ptrs"
    proof
      assume "Some a \<in> set ptrs"
      then obtain i where "i < length ptrs" "ptrs ! i = Some a" by (auto simp: in_set_conv_nth)
      with addr that show False by blast
    qed
    thus ?thesis by (simp add: without_slots_def)
  qed
  have D: "sims ?w' = (sims w)(s := None)" "mjmodels ?w' = mjmodels w" by simp_all
  show ?thesis unfolding N using A B C D by blast
qed

section \<open>The claims\<close>

text \<open>
  C1. For a pool of \<open>N\<close> environments and a flat control buffer of length \<open>N * nu\<close>, the
  batched step, in whatever order the blocks run, puts the slice \<open>controls[i*nu : i*nu+nu]\<close>
  into the control vector of slot \<open>i\<close> and advances slot \<open>i\<close> by one engine step, for every
  \<open>i < N\<close>: the state of slot \<open>i\<close> afterwards is \<open>mj_step\<close> of its state before with its own
  slice as controls. The resulting store is the one that \<open>N\<close> single-environment steps
  (\<^verbatim>\<open>mjaccess_set_ctrl\<close> and \<^verbatim>\<open>mjaccess_step\<close> on each slot) give from the same store; the
  model, the pool structure and every other \<^verbatim>\<open>mjData\<close> are unchanged.
\<close>

theorem batched_step_equals_independent_steps:
  assumes "pool_ok w s" and "pool_model w s = Some m"
    and "length cb = pool_size w s * nu m"
  shows "\<exists>w'. mjaccess_batched_step eng sched w (Some s) (Some cb) = Inr w' \<and>
           independent_steps eng w s cb = Inr w' \<and>
           mjmodels w' = mjmodels w \<and> sims w' = sims w \<and>
           (\<forall>i<pool_size w s. \<exists>d. slot_state w s i = Some d \<and>
               slot_state w' s i = Some (mj_step eng m (d\<lparr>ctrl := slice cb i (nu m)\<rparr>))) \<and>
           (\<forall>a. (\<forall>i<pool_size w s. slot_addr w s i \<noteq> Some a) \<longrightarrow> mjdatas w' a = mjdatas w a)"
  using assms by (rule batched_step_char)

theorem batched_step_equals_independent_steps_witness:
  "pool_ok ex_world 4 \<and> pool_model ex_world 4 = Some ex_model \<and>
   length [10, 20 :: int] = pool_size ex_world 4 * nu ex_model \<and>
   (\<exists>w'. mjaccess_batched_step ex_engine [1, 0] ex_world (Some 4) (Some [10, 20]) = Inr w' \<and>
      independent_steps ex_engine ex_world 4 [10, 20] = Inr w' \<and>
      slot_state w' 4 0 = Some ((ex_default ex_model)
         \<lparr>qpos := [4, 6], qvel := [13, 14], ctrl := [10], qfrc_actuator := [11, 12],
          internal := 1\<rparr>) \<and>
      slot_state w' 4 1 = Some ((ex_default ex_model)
         \<lparr>qpos := [12, 14], qvel := [27, 28], ctrl := [20], qfrc_actuator := [13, 14],
          internal := 2\<rparr>))"
proof -
  have h1: "pool_ok ex_world 4" by (rule ex_pool_ok)
  have h2: "pool_model ex_world 4 = Some ex_model" by (rule ex_pool_model)
  have h3: "length [10, 20 :: int] = pool_size ex_world 4 * nu ex_model"
    by (simp add: ex_pool_size ex_model_def)
  have s0: "slot_state ex_world 4 0
            = Some ((ex_default ex_model)\<lparr>qpos := [1, 2], qvel := [3, 4], qfrc_actuator := [11, 12]\<rparr>)"
    by (simp add: slot_state_def slot_def datas_at_def deref_data_def ex_world_def ex_sim_def)
  have s1: "slot_state ex_world 4 1
            = Some ((ex_default ex_model)\<lparr>qpos := [5, 6], qvel := [7, 8], qfrc_actuator := [13, 14],
                                           internal := 1\<rparr>)"
    by (simp add: slot_state_def slot_def datas_at_def deref_data_def ex_world_def ex_sim_def)
  from batched_step_equals_independent_steps[OF h1 h2 h3, of ex_engine "[1, 0]"]
  obtain w' where w': "mjaccess_batched_step ex_engine [1, 0] ex_world (Some 4) (Some [10, 20]) = Inr w'"
      "independent_steps ex_engine ex_world 4 [10, 20] = Inr w'"
      "\<forall>i<pool_size ex_world 4. \<exists>d. slot_state ex_world 4 i = Some d \<and>
               slot_state w' 4 i = Some (mj_step ex_engine ex_model (d\<lparr>ctrl := slice [10, 20] i (nu ex_model)\<rparr>))"
    by blast
  have i0: "0 < pool_size ex_world 4" and i1: "1 < pool_size ex_world 4"
    by (simp_all add: ex_pool_size)
  from w'(3)[rule_format, OF i0] s0 have a: "slot_state w' 4 0 = Some ((ex_default ex_model)
         \<lparr>qpos := [4, 6], qvel := [13, 14], ctrl := [10], qfrc_actuator := [11, 12],
          internal := 1\<rparr>)"
    by (simp add: ex_pool_size ex_engine_def ex_step_def ex_default_def ex_model_def slice_def)
  from w'(3)[rule_format, OF i1] s1 have b: "slot_state w' 4 1 = Some ((ex_default ex_model)
         \<lparr>qpos := [12, 14], qvel := [27, 28], ctrl := [20], qfrc_actuator := [13, 14],
          internal := 2\<rparr>)"
    by (simp add: ex_pool_size ex_engine_def ex_step_def ex_default_def ex_model_def slice_def)
  from h1 h2 h3 w'(1,2) a b show ?thesis by blast
qed

text \<open>
  C2. For a pool of \<open>N\<close> environments and every exported field, the batched gather
  returns the pool's buffer for the field and reports the length \<open>N * perEnvDim\<close>; the
  buffer has that length, its entries \<open>[i * perEnvDim, (i+1) * perEnvDim)\<close> are the values
  of the field in slot \<open>i\<close> at the time of the call, for every \<open>i < N\<close>, and it is the
  concatenation of the slots' values, so nothing of its earlier contents is left. The
  call changes nothing else in the store.
\<close>

theorem batched_gather_layout:
  assumes "pool_ok w s" and "pool_model w s = Some m"
  shows "\<exists>w' buf.
           BATCHED_GATHER f w (Some s) n_out
             = Inr (w', Some buf,
                    map_option (\<lambda>_. int (pool_size w s) * int (per_env_expr f m)) n_out) \<and>
           buf = concat (map (pool_field f w s) [0..<pool_size w s]) \<and>
           length buf = pool_size w s * per_env_expr f m \<and>
           (\<forall>i<pool_size w s. \<exists>d. slot_state w s i = Some d \<and>
                slice buf i (per_env_expr f m) = data_field f d) \<and>
           (\<exists>S. sims w s = Some S \<and>
                w' = w\<lparr>sims := (sims w)(s \<mapsto> buf_field_update f (Some buf) S)\<rparr>)"
  using assms by (rule gather_char)

theorem batched_gather_layout_witness:
  "pool_ok ex_world 4 \<and> pool_model ex_world 4 = Some ex_model \<and>
   (\<exists>w'. mjaccess_batched_get_qpos ex_world (Some 4) (Some 0) = Inr (w', Some [1, 2, 5, 6], Some 4))"
proof -
  have h1: "pool_ok ex_world 4" by (rule ex_pool_ok)
  have h2: "pool_model ex_world 4 = Some ex_model" by (rule ex_pool_model)
  have f0: "pool_field G_qpos ex_world 4 0 = [1, 2]"
    by (simp add: pool_field_def slot_state_def slot_def datas_at_def deref_data_def
        ex_world_def ex_sim_def)
  have f1: "pool_field G_qpos ex_world 4 (Suc 0) = [5, 6]"
    by (simp add: pool_field_def slot_state_def slot_def datas_at_def deref_data_def
        ex_world_def ex_sim_def)
  have u: "[0..<2] = [0, Suc 0]" by (simp add: upt_rec)
  from batched_gather_layout[OF h1 h2, of G_qpos "Some 0"]
  obtain w' buf where
    "BATCHED_GATHER G_qpos ex_world (Some 4) (Some 0)
       = Inr (w', Some buf, Some (int (pool_size ex_world 4) * int (per_env_expr G_qpos ex_model)))"
    "buf = concat (map (pool_field G_qpos ex_world 4) [0..<pool_size ex_world 4])"
    by auto
  hence "mjaccess_batched_get_qpos ex_world (Some 4) (Some 0) = Inr (w', Some [1, 2, 5, 6], Some 4)"
    by (simp add: mjaccess_batched_get_qpos_def ex_pool_size ex_model_def u f0 f1)
  with h1 h2 show ?thesis by blast
qed

text \<open>
  C3 fails on the code. In the example pool each slot has a position vector of length
  \<open>nq = 2\<close>; setting slot 0 from three values with \<open>nq = 3\<close> copies three doubles into the
  array of two, and so does the velocity setter: the copy is not cut to the length of the
  field. A negative count is turned into a huge \<^verbatim>\<open>size_t\<close> and leaves the array as well.
\<close>

theorem batched_set_env_out_of_bounds:
  "mjaccess_batched_set_env_qpos ex_world (Some 4) 0 (Some [1, 2, 3]) 3 = Inl OutOfBounds \<and>
   mjaccess_batched_set_env_qvel ex_world (Some 4) 0 (Some [1, 2, 3]) 3 = Inl OutOfBounds \<and>
   mjaccess_batched_set_env_qpos ex_world (Some 4) 0 (Some [1, 2, 3]) (- 1) = Inl OutOfBounds"
  by (simp add: mjaccess_batched_set_env_qpos_def mjaccess_batched_set_env_qvel_def
      ex_world_def ex_sim_def slot_def datas_at_def deref_data_def memcpy_def double_count_def
      size_t_of_int_def ex_default_def ex_model_def)

text \<open>
  C4, as the specification states it, fails: in the example pool of two environments
  over a model with \<open>nv = 2\<close> and \<open>nu = 1\<close>, the batched actuator-force gather reports the
  length 4, not \<open>N * nu = 2\<close>.
\<close>

theorem qfrc_actuator_gather_counterexample:
  "returned (mjaccess_batched_get_qfrc_actuator ex_world (Some 4) (Some 0))
     = Some (Some [11, 12, 13, 14], Some 4) \<and>
   int (pool_size ex_world 4) * int (nu ex_model) = 2"
  by (simp add: returned_def mjaccess_batched_get_qfrc_actuator_def BATCHED_GATHER_def
      gather_loop.simps slot_def datas_at_def deref_data_def memcpy_def double_count_def
      size_t_of_int_def ex_world_def ex_sim_def ex_model_def ex_default_def pool_size_def
      upt_rec)

text \<open>
  C4, amended. The exported actuator-force field is \<^verbatim>\<open>qfrc_actuator\<close>, whose
  per-environment dimension is the velocity-vector length \<open>nv\<close>: the batched gather
  reports the length \<open>N * nv\<close> and returns a buffer of that length in which environment
  \<open>i\<close> contributes the \<open>nv\<close> values of its \<^verbatim>\<open>qfrc_actuator\<close>.
\<close>

theorem qfrc_actuator_gather_nv:
  assumes "pool_ok w s" and "pool_model w s = Some m"
  shows "\<exists>w' buf.
           mjaccess_batched_get_qfrc_actuator w (Some s) n_out
             = Inr (w', Some buf, map_option (\<lambda>_. int (pool_size w s) * int (nv m)) n_out) \<and>
           length buf = pool_size w s * nv m \<and>
           (\<forall>i<pool_size w s. \<exists>d. slot_state w s i = Some d \<and>
                slice buf i (nv m) = qfrc_actuator d)"
  using gather_char[OF assms, of G_qfrc_actuator n_out]
  by (auto simp: mjaccess_batched_get_qfrc_actuator_def)

theorem qfrc_actuator_gather_nv_witness:
  "pool_ok ex_world 4 \<and> pool_model ex_world 4 = Some ex_model \<and>
   (\<exists>w' buf. mjaccess_batched_get_qfrc_actuator ex_world (Some 4) (Some 0)
                = Inr (w', Some buf, Some 4) \<and> length buf = 4)"
proof -
  have h1: "pool_ok ex_world 4" by (rule ex_pool_ok)
  have h2: "pool_model ex_world 4 = Some ex_model" by (rule ex_pool_model)
  from qfrc_actuator_gather_nv[OF h1 h2, of "Some 0"]
  have "\<exists>w' buf. mjaccess_batched_get_qfrc_actuator ex_world (Some 4) (Some 0)
                = Inr (w', Some buf, Some 4) \<and> length buf = 4"
    by (auto simp: ex_pool_size ex_model_def)
  with h1 h2 show ?thesis by blast
qed

text \<open>
  C5. For a pool of \<open>N\<close> environments and a mask of length \<open>N\<close>, the masked reset puts
  slot \<open>i\<close> into the state the engine's reset gives it exactly when \<open>mask[i]\<close> is nonzero, and
  leaves every slot with \<open>mask[i] = 0\<close> as it was; the model, the pool structure and all
  other \<^verbatim>\<open>mjData\<close> are unchanged, and with an all-zero mask the whole store is unchanged.
\<close>

theorem batched_reset_masked:
  assumes "pool_ok w s" and "pool_model w s = Some m" and "length msk = pool_size w s"
  shows "\<exists>w'. mjaccess_batched_reset eng w (Some s) (Some msk) = Inr w' \<and>
           mjmodels w' = mjmodels w \<and> sims w' = sims w \<and>
           (\<forall>i<pool_size w s. \<exists>d. slot_state w s i = Some d \<and>
               slot_state w' s i = Some (if msk ! i \<noteq> 0 then mj_resetData eng m d else d)) \<and>
           (\<forall>a. (\<forall>i<pool_size w s. slot_addr w s i \<noteq> Some a) \<longrightarrow> mjdatas w' a = mjdatas w a) \<and>
           ((\<forall>i<pool_size w s. msk ! i = 0) \<longrightarrow> w' = w)"
proof -
  from batched_reset_char[OF assms, of eng] obtain w' where
    w': "mjaccess_batched_reset eng w (Some s) (Some msk) = Inr w'"
      "w' = w\<lparr>mjdatas := mjdatas w'\<rparr>"
      "\<forall>i<pool_size w s. \<exists>d. slot_state w s i = Some d \<and>
               slot_state w' s i = Some (if msk ! i \<noteq> 0 then mj_resetData eng m d else d)"
      "\<forall>a. (\<forall>i<pool_size w s. slot_addr w s i \<noteq> Some a) \<longrightarrow> mjdatas w' a = mjdatas w a"
      "(\<forall>i<pool_size w s. msk ! i = 0) \<longrightarrow> w' = w"
    by blast
  from w'(2) have "mjmodels w' = mjmodels (w\<lparr>mjdatas := mjdatas w'\<rparr>)"
    and "sims w' = sims (w\<lparr>mjdatas := mjdatas w'\<rparr>)"
    by (rule arg_cong)+
  hence "mjmodels w' = mjmodels w" "sims w' = sims w" by simp_all
  with w'(1,3,4,5) show ?thesis by blast
qed

theorem batched_reset_masked_witness:
  "pool_ok ex_world 4 \<and> pool_model ex_world 4 = Some ex_model \<and>
   length [0, 1 :: int] = pool_size ex_world 4 \<and>
   (\<exists>w'. mjaccess_batched_reset ex_engine ex_world (Some 4) (Some [0, 1]) = Inr w' \<and>
      slot_state w' 4 0 = slot_state ex_world 4 0 \<and>
      slot_state w' 4 1 = Some (ex_default ex_model))"
proof -
  have h1: "pool_ok ex_world 4" by (rule ex_pool_ok)
  have h2: "pool_model ex_world 4 = Some ex_model" by (rule ex_pool_model)
  have h3: "length [0, 1 :: int] = pool_size ex_world 4" by (simp add: ex_pool_size)
  from batched_reset_masked[OF h1 h2 h3, of ex_engine] obtain w' where
    w': "mjaccess_batched_reset ex_engine ex_world (Some 4) (Some [0, 1]) = Inr w'"
      "\<forall>i<pool_size ex_world 4. \<exists>d. slot_state ex_world 4 i = Some d \<and>
          slot_state w' 4 i = Some (if [0, 1 :: int] ! i \<noteq> 0 then mj_resetData ex_engine ex_model d else d)"
    by blast
  have i0: "0 < pool_size ex_world 4" and i1: "1 < pool_size ex_world 4"
    by (simp_all add: ex_pool_size)
  from w'(2)[rule_format, OF i0] have a: "slot_state w' 4 0 = slot_state ex_world 4 0" by auto
  from w'(2)[rule_format, OF i1] have b: "slot_state w' 4 1 = Some (ex_default ex_model)"
    by (auto simp: ex_engine_def)
  from h1 h2 h3 w'(1) a b show ?thesis by blast
qed

text \<open>
  C6. Pool creation returns the failure result and leaves the store as it was when the
  model handle is null or holds no model, the configuration is null or asks for
  \<open>N \<le> 0\<close> environments. When the handle and \<open>N\<close> are valid, the two \<^verbatim>\<open>calloc\<close> calls
  succeed and one of the first \<open>N\<close> calls of \<^verbatim>\<open>mj_makeData\<close> fails, creation returns the failure
  result as well, and then every \<^verbatim>\<open>mjData\<close> allocated so far and the pool structure have
  been released: the stores of \<^verbatim>\<open>mjData\<close> and of pools are what they were before the call,
  and the model has not been written.
\<close>

theorem batched_create_failure:
  "(model = None \<or> (\<exists>M. model = Some M \<and> model_mj M = None) \<or> config = None \<or>
      (\<exists>cfg. config = Some cfg \<and> cfg_num_envs cfg \<le> 0)
    \<longrightarrow> mjaccess_batched_create eng w model config = Inr (w, None)) \<and>
   (model = Some M \<and> model_mj M = Some mj \<and> mjmodels w mj = Some m \<and>
      config = Some cfg \<and> 0 < cfg_num_envs cfg \<and> cfg_num_envs cfg \<le> INT_MAX \<and>
      heap_ok w \<and> next_outcome (libc_plan w) \<and> next_outcome (tl (libc_plan w)) \<and>
      k < nat (cfg_num_envs cfg) \<and> k < length (makeData_plan w) \<and> \<not> makeData_plan w ! k
    \<longrightarrow> (\<exists>w'. mjaccess_batched_create eng w model config = Inr (w', None) \<and>
            mjdatas w' = mjdatas w \<and> sims w' = sims w \<and> mjmodels w' = mjmodels w))"
proof (intro conjI impI)
  assume "model = None \<or> (\<exists>M. model = Some M \<and> model_mj M = None) \<or> config = None \<or>
      (\<exists>cfg. config = Some cfg \<and> cfg_num_envs cfg \<le> 0)"
  thus "mjaccess_batched_create eng w model config = Inr (w, None)"
    by (auto simp: mjaccess_batched_create_def split: option.splits)
next
  assume a: "model = Some M \<and> model_mj M = Some mj \<and> mjmodels w mj = Some m \<and>
      config = Some cfg \<and> 0 < cfg_num_envs cfg \<and> cfg_num_envs cfg \<le> INT_MAX \<and>
      heap_ok w \<and> next_outcome (libc_plan w) \<and> next_outcome (tl (libc_plan w)) \<and>
      k < nat (cfg_num_envs cfg) \<and> k < length (makeData_plan w) \<and> \<not> makeData_plan w ! k"
  show "\<exists>w'. mjaccess_batched_create eng w model config = Inr (w', None) \<and>
            mjdatas w' = mjdatas w \<and> sims w' = sims w \<and> mjmodels w' = mjmodels w"
    by (rule batched_create_slot_failure[of model M mj w m config cfg k]) (use a in simp_all)
qed

theorem batched_create_failure_witness:
  "mjaccess_batched_create ex_engine ex_empty (Some \<lparr>model_mj = Some 0\<rparr>)
     (Some \<lparr>cfg_num_envs = 0, solver_iterations = 5\<rparr>) = Inr (ex_empty, None) \<and>
   mjaccess_batched_create ex_engine ex_empty None
     (Some \<lparr>cfg_num_envs = 2, solver_iterations = 5\<rparr>) = Inr (ex_empty, None) \<and>
   heap_ok (ex_empty\<lparr>makeData_plan := [True, False]\<rparr>) \<and>
   (\<exists>w'. mjaccess_batched_create ex_engine (ex_empty\<lparr>makeData_plan := [True, False]\<rparr>)
            (Some \<lparr>model_mj = Some 0\<rparr>) (Some \<lparr>cfg_num_envs = 2, solver_iterations = 5\<rparr>)
          = Inr (w', None) \<and>
          mjdatas w' = mjdatas ex_empty \<and> sims w' = sims ex_empty \<and>
          mjmodels w' = mjmodels ex_empty)"
proof -
  note T = batched_create_failure[of _ _ ex_engine]
  have 1: "mjaccess_batched_create ex_engine ex_empty (Some \<lparr>model_mj = Some 0\<rparr>)
     (Some \<lparr>cfg_num_envs = 0, solver_iterations = 5\<rparr>) = Inr (ex_empty, None)"
    using T[of "Some \<lparr>model_mj = Some 0\<rparr>" "Some \<lparr>cfg_num_envs = 0, solver_iterations = 5\<rparr>" ex_empty]
    by simp
  have 2: "mjaccess_batched_create ex_engine ex_empty None
     (Some \<lparr>cfg_num_envs = 2, solver_iterations = 5\<rparr>) = Inr (ex_empty, None)"
    using T[of None "Some \<lparr>cfg_num_envs = 2, solver_iterations = 5\<rparr>" ex_empty]
    by simp
  let ?w = "ex_empty\<lparr>makeData_plan := [True, False]\<rparr>"
  have h: "heap_ok ?w" by (simp add: heap_ok_def ex_empty_def)
  have 3: "\<exists>w'. mjaccess_batched_create ex_engine ?w
            (Some \<lparr>model_mj = Some 0\<rparr>) (Some \<lparr>cfg_num_envs = 2, solver_iterations = 5\<rparr>)
          = Inr (w', None) \<and>
          mjdatas w' = mjdatas ?w \<and> sims w' = sims ?w \<and> mjmodels w' = mjmodels ?w"
    using T[of "Some \<lparr>model_mj = Some 0\<rparr>" "Some \<lparr>cfg_num_envs = 2, solver_iterations = 5\<rparr>" ?w
        "\<lparr>model_mj = Some 0\<rparr>" 0 ex_model "\<lparr>cfg_num_envs = 2, solver_iterations = 5\<rparr>" 1] h
    by (simp add: ex_empty_def INT_MAX_def next_outcome_def)
  from 1 2 h 3 show ?thesis by simp
qed

text \<open>
  C7. The batch functions write the shared model only in \<^verbatim>\<open>mjaccess_batched_create\<close>, and
  only its solver-iteration count: a creation that returns a pool leaves the models as
  they were when no override is requested (\<open>solver_iterations \<le> 0\<close>) and otherwise changes
  just \<open>opt_iterations\<close> of the pool's model to the requested value; a creation that
  returns the failure result, and every step, reset, gather, per-slot setter and destroy
  that runs without a fault, leaves every model as it was.
\<close>

theorem shared_model_written_only_by_create_override:
  "(\<forall>w' r. mjaccess_batched_create eng w model config = Inr (w', r) \<longrightarrow>
      (r = None \<longrightarrow> mjmodels w' = mjmodels w) \<and>
      (r \<noteq> None \<longrightarrow>
         (\<exists>M mj cfg m. model = Some M \<and> model_mj M = Some mj \<and> config = Some cfg \<and>
            mjmodels w mj = Some m \<and>
            mjmodels w' = (if 0 < solver_iterations cfg
                           then (mjmodels w)(mj \<mapsto> m\<lparr>opt_iterations := solver_iterations cfg\<rparr>)
                           else mjmodels w)))) \<and>
   (\<forall>w'. mjaccess_batched_step eng sched w sim ctrl_buf = Inr w' \<longrightarrow> mjmodels w' = mjmodels w) \<and>
   (\<forall>w'. mjaccess_batched_reset eng w sim reset_mask = Inr w' \<longrightarrow> mjmodels w' = mjmodels w) \<and>
   (\<forall>w' r. BATCHED_GATHER f w sim n_out = Inr (w', r) \<longrightarrow> mjmodels w' = mjmodels w) \<and>
   (\<forall>w'. mjaccess_batched_set_env_qpos w sim env_idx vals n = Inr w' \<longrightarrow> mjmodels w' = mjmodels w) \<and>
   (\<forall>w'. mjaccess_batched_set_env_qvel w sim env_idx vals n = Inr w' \<longrightarrow> mjmodels w' = mjmodels w) \<and>
   (\<forall>w'. mjaccess_batched_free w sim = Inr w' \<longrightarrow> mjmodels w' = mjmodels w)"
  using batched_create_models_exact[of eng w model config]
    batched_step_models[of eng sched w sim ctrl_buf]
    batched_reset_models[of eng w sim reset_mask]
    batched_gather_models[of f w sim n_out]
    set_env_qpos_models[of w sim env_idx vals n]
    set_env_qvel_models[of w sim env_idx vals n]
    batched_free_models[of w sim]
  by blast

theorem shared_model_written_only_by_create_override_witness:
  "(\<exists>w'. mjaccess_batched_create ex_engine ex_empty (Some \<lparr>model_mj = Some 0\<rparr>)
            (Some \<lparr>cfg_num_envs = 2, solver_iterations = 5\<rparr>) = Inr (w', Some 4) \<and>
          mjmodels w' = (mjmodels ex_empty)(0 \<mapsto> ex_model\<lparr>opt_iterations := 5\<rparr>)) \<and>
   (\<exists>w'. mjaccess_batched_step ex_engine [1, 0] ex_world (Some 4) (Some [10, 20]) = Inr w' \<and>
          mjmodels w' = mjmodels ex_world) \<and>
   (\<exists>w'. mjaccess_batched_reset ex_engine ex_world (Some 4) (Some [0, 1]) = Inr w' \<and>
          mjmodels w' = mjmodels ex_world) \<and>
   (\<exists>w' r. BATCHED_GATHER G_cvel ex_world (Some 4) (Some 0) = Inr (w', r) \<and>
          mjmodels w' = mjmodels ex_world) \<and>
   (\<exists>w'. mjaccess_batched_set_env_qpos ex_world (Some 4) 1 (Some [21, 22]) 1 = Inr w' \<and>
          mjmodels w' = mjmodels ex_world) \<and>
   (\<exists>w'. mjaccess_batched_set_env_qvel ex_world (Some 4) 1 (Some [21, 22]) 2 = Inr w' \<and>
          mjmodels w' = mjmodels ex_world) \<and>
   (\<exists>w'. mjaccess_batched_free ex_world (Some 4) = Inr w' \<and> mjmodels w' = mjmodels ex_world)"
proof -
  note T = shared_model_written_only_by_create_override[of ex_engine _ _ _ "[1, 0]" _ _ _ G_cvel "Some 0" 1
      "Some [21, 22]"]
  have h: "length [10, 20 :: int] = pool_size ex_world 4 * nu ex_model"
    "length [0, 1 :: int] = pool_size ex_world 4"
    by (simp_all add: ex_pool_size ex_model_def)
  obtain w1 where 1: "mjaccess_batched_create ex_engine ex_empty (Some \<lparr>model_mj = Some 0\<rparr>)
            (Some \<lparr>cfg_num_envs = 2, solver_iterations = 5\<rparr>) = Inr (w1, Some 4)"
    using ex_create by blast
  have m0: "mjmodels ex_empty 0 = Some ex_model" by (simp add: ex_empty_def)
  from T[of ex_empty "Some \<lparr>model_mj = Some 0\<rparr>" "Some \<lparr>cfg_num_envs = 2, solver_iterations = 5\<rparr>"] 1 m0
  have c1: "mjmodels w1 = (mjmodels ex_empty)(0 \<mapsto> ex_model\<lparr>opt_iterations := 5\<rparr>)"
    by auto
  obtain w2 where 2: "mjaccess_batched_step ex_engine [1, 0] ex_world (Some 4) (Some [10, 20]) = Inr w2"
    using batched_step_char[OF ex_pool_ok ex_pool_model h(1)] by blast
  obtain w3 where 3: "mjaccess_batched_reset ex_engine ex_world (Some 4) (Some [0, 1]) = Inr w3"
    using batched_reset_char[OF ex_pool_ok ex_pool_model h(2)] by blast
  obtain w4 r4 where 4: "BATCHED_GATHER G_cvel ex_world (Some 4) (Some 0) = Inr (w4, r4)"
    using gather_char[OF ex_pool_ok ex_pool_model, of G_cvel "Some 0"] by blast
  obtain w5 where 5: "mjaccess_batched_set_env_qpos ex_world (Some 4) 1 (Some [21, 22]) 1 = Inr w5"
    using ex_set_env by blast
  obtain w6 where 6: "mjaccess_batched_set_env_qvel ex_world (Some 4) 1 (Some [21, 22]) 2 = Inr w6"
    using ex_set_env_qvel by blast
  obtain w7 where 7: "mjaccess_batched_free ex_world (Some 4) = Inr w7"
    using ex_free by blast
  note U = T[of ex_world "Some \<lparr>model_mj = Some 0\<rparr>" None "Some 4" "Some [10, 20]" "Some [0, 1]"]
  from U 2 have c2: "mjmodels w2 = mjmodels ex_world" by blast
  from U 3 have c3: "mjmodels w3 = mjmodels ex_world" by blast
  from U 4 have c4: "mjmodels w4 = mjmodels ex_world" by blast
  from U[of 1] 5 have c5: "mjmodels w5 = mjmodels ex_world" by blast
  from U[of 2] 6 have c6: "mjmodels w6 = mjmodels ex_world" by blast
  from U 7 have c7: "mjmodels w7 = mjmodels ex_world" by blast
  from 1 c1 2 c2 3 c3 4 c4 5 c5 6 c6 7 c7 show ?thesis by blast
qed

text \<open>
  C8, as the specification states it, fails for an already-destroyed pool: destroying the
  example pool succeeds, and destroying it again through the handle the caller still
  holds reads released memory (in C a use after free followed by a double free), which
  is a fault and not a no-op.
\<close>

theorem batched_free_destroyed_counterexample:
  "isl (mjaccess_batched_free ex_world (Some 4)) = False \<and>
   free_twice ex_world (Some 4) = Inl Dangling"
  by (simp add: free_twice_def mjaccess_batched_free_def ex_world_def ex_sim_def
      ex_model_def ex_default_def upt_rec datas_at_def mj_deleteData_call_def
      batched_free_buffers_def)

text \<open>
  C8, amended. Destroying a null pool handle is a no-op: it changes no state and does not
  fault, in every store, and so also after a pool has been destroyed. The destroy
  operation takes the handle by value and keeps no record of the pools it has released, so
  an already-destroyed pool is covered through a null handle only: once a destroy of a
  pool has succeeded, a second destroy through the same non-null handle is a use of
  released memory, which this layer does not detect.
\<close>

theorem batched_free_null_or_destroyed:
  "mjaccess_batched_free w None = Inr w \<and>
   (mjaccess_batched_free w (Some s) = Inr w' \<longrightarrow>
      mjaccess_batched_free w' None = Inr w' \<and>
      mjaccess_batched_free w' (Some s) = Inl Dangling \<and>
      free_twice w (Some s) = Inl Dangling)"
proof -
  have null: "mjaccess_batched_free v None = Inr v" for v :: "('a, 'b, 'c) world"
    by (simp add: mjaccess_batched_free_def)
  have "mjaccess_batched_free w' (Some s) = Inl Dangling \<and> free_twice w (Some s) = Inl Dangling"
    if h: "mjaccess_batched_free w (Some s) = Inr w'"
  proof -
    from batched_free_twice[OF h] have d: "mjaccess_batched_free w' (Some s) = Inl Dangling" .
    from h d have "free_twice w (Some s) = Inl Dangling" by (simp add: free_twice_def)
    with d show ?thesis by simp
  qed
  with null show ?thesis by blast
qed

theorem batched_free_null_or_destroyed_witness:
  "mjaccess_batched_free ex_world None = Inr ex_world \<and>
   (\<exists>w'. mjaccess_batched_free ex_world (Some 4) = Inr w' \<and>
         mjaccess_batched_free w' None = Inr w' \<and>
         mjaccess_batched_free w' (Some 4) = Inl Dangling \<and>
         free_twice ex_world (Some 4) = Inl Dangling)"
proof -
  obtain w' where h: "mjaccess_batched_free ex_world (Some 4) = Inr w'"
    using ex_free by blast
  from batched_free_null_or_destroyed[of ex_world 4 w'] h show ?thesis by blast
qed

text \<open>
  C9. The engine's step is a function of the model and the state, so it is deterministic.
  For a pool of \<open>N\<close> environments that all start in the same state, and a sequence of
  \<open>k\<close> batched steps in each of which every environment gets the same control slice (the
  engine keeping the sizes of the arrays), the \<open>k\<close> steps run without a fault in whatever
  order the blocks run, and afterwards the gather of every exported field returns a
  buffer whose ranges for any two environments hold the same values.
\<close>

theorem batched_parity:
  assumes "pool_ok w s" and "pool_model w s = Some m"
    and "\<forall>d. slot_ok m d \<longrightarrow> slot_ok m (mj_step eng m d)"
    and "\<forall>i<pool_size w s. slot_state w s i = Some d0"
    and "\<forall>st\<in>set steps. uniform_controls (pool_size w s) (nu m) (snd st)"
  shows "\<exists>w'. batched_steps eng w (Some s) steps = Inr w' \<and>
           (\<forall>f n_out. \<exists>w'' buf.
               BATCHED_GATHER f w' (Some s) n_out
                 = Inr (w'', Some buf,
                        map_option (\<lambda>_. int (pool_size w s) * int (per_env_expr f m)) n_out) \<and>
               (\<forall>i<pool_size w s. \<forall>j<pool_size w s.
                   slice buf i (per_env_expr f m) = slice buf j (per_env_expr f m)))"
  using assms by (rule batched_parity_char)

theorem batched_parity_witness:
  "pool_ok ex_twin 4 \<and> pool_model ex_twin 4 = Some ex_model \<and>
   slot_state ex_twin 4 0 = slot_state ex_twin 4 1 \<and>
   uniform_controls (pool_size ex_twin 4) (nu ex_model) [10, 10 :: int] \<and>
   uniform_controls (pool_size ex_twin 4) (nu ex_model) [20, 20 :: int] \<and>
   (\<exists>w'. batched_steps ex_engine ex_twin (Some 4) [([1, 0], [10, 10]), ([], [20, 20])] = Inr w' \<and>
      (\<exists>w'' buf. mjaccess_batched_get_qpos w' (Some 4) (Some 0) = Inr (w'', Some buf, Some 4) \<and>
         slice buf 0 2 = slice buf 1 2))"
proof -
  have sz: "pool_size ex_twin 4 = 2" by (simp add: pool_size_def ex_twin_def ex_world_def ex_sim_def)
  have h1: "pool_ok ex_twin 4"
    by (simp add: pool_ok_def ex_twin_def ex_world_def ex_sim_def ex_model_def all_fields_def
        deref_data_def slot_ok_def ex_default_def INT_MAX_def)
  have h2: "pool_model ex_twin 4 = Some ex_model"
    by (simp add: pool_model_def ex_twin_def ex_world_def ex_sim_def)
  have h3: "\<forall>d. slot_ok ex_model d \<longrightarrow> slot_ok ex_model (mj_step ex_engine ex_model d)"
    by (simp add: slot_ok_def all_fields_def ex_engine_def ex_step_def ex_model_def)
  have h4: "\<forall>i<pool_size ex_twin 4.
       slot_state ex_twin 4 i = Some ((ex_default ex_model)\<lparr>qpos := [1, 2], qvel := [3, 4]\<rparr>)"
    unfolding sz
    by (auto simp: less_2_cases_iff slot_state_def slot_def datas_at_def deref_data_def
        ex_twin_def ex_world_def ex_sim_def)
  have h5: "\<forall>st\<in>set [([1, 0], [10, 10 :: int]), ([] :: nat list, [20, 20])].
       uniform_controls (pool_size ex_twin 4) (nu ex_model) (snd st)"
    unfolding sz by (simp add: uniform_controls_def ex_model_def slice_def upt_rec)
  from batched_parity[OF h1 h2 h3 h4 h5] obtain w' where
    w': "batched_steps ex_engine ex_twin (Some 4) [([1, 0], [10, 10]), ([], [20, 20])] = Inr w'"
      "\<forall>f n_out. \<exists>w'' buf.
               BATCHED_GATHER f w' (Some 4) n_out
                 = Inr (w'', Some buf,
                        map_option (\<lambda>_. int (pool_size ex_twin 4) * int (per_env_expr f ex_model)) n_out) \<and>
               (\<forall>i<pool_size ex_twin 4. \<forall>j<pool_size ex_twin 4.
                   slice buf i (per_env_expr f ex_model) = slice buf j (per_env_expr f ex_model))"
    by blast
  from w'(2)[rule_format, of G_qpos "Some 0"] obtain w'' buf where
    gg: "BATCHED_GATHER G_qpos w' (Some 4) (Some 0)
          = Inr (w'', Some buf,
                 map_option (\<lambda>_. int (pool_size ex_twin 4) * int (per_env_expr G_qpos ex_model)) (Some (0::int))) \<and>
       (\<forall>i<pool_size ex_twin 4. \<forall>j<pool_size ex_twin 4.
           slice buf i (per_env_expr G_qpos ex_model) = slice buf j (per_env_expr G_qpos ex_model))"
    by blast
  note g = gg[THEN conjunct1] gg[THEN conjunct2]
  from g(1) have g1: "mjaccess_batched_get_qpos w' (Some 4) (Some 0) = Inr (w'', Some buf, Some 4)"
    by (simp add: mjaccess_batched_get_qpos_def sz ex_model_def)
  have "(0::nat) < pool_size ex_twin 4" "(1::nat) < pool_size ex_twin 4" by (simp_all add: sz)
  with g(2) have "slice buf 0 (per_env_expr G_qpos ex_model) = slice buf 1 (per_env_expr G_qpos ex_model)"
    by blast
  hence g2: "slice buf 0 2 = slice buf 1 2" by (simp add: ex_model_def)
  have "(0::nat) < pool_size ex_twin 4" "(1::nat) < pool_size ex_twin 4" by (simp_all add: sz)
  with h4 have e: "slot_state ex_twin 4 0 = slot_state ex_twin 4 1" by simp
  from h5 have u: "uniform_controls (pool_size ex_twin 4) (nu ex_model) [10, 10 :: int]"
    "uniform_controls (pool_size ex_twin 4) (nu ex_model) [20, 20 :: int]" by simp_all
  from h1 h2 e u w'(1) g1 g2 show ?thesis by blast
qed

text \<open>
  C10. A batched step with a null pool or a null control buffer and a batched reset with a
  null pool or a null mask return the store unchanged; every batched gather on a null pool
  returns the null pointer, leaves the store unchanged and stores 0 in \<open>*n_out\<close>. The
  per-slot setters return the store unchanged for a null pool or a null values buffer.
\<close>

theorem batched_null_arguments:
  "mjaccess_batched_step eng sched w None ctrl_buf = Inr w \<and>
   mjaccess_batched_step eng sched w sim None = Inr w \<and>
   mjaccess_batched_reset eng w None reset_mask = Inr w \<and>
   mjaccess_batched_reset eng w sim None = Inr w \<and>
   BATCHED_GATHER f w None (Some n) = Inr (w, None, Some 0) \<and>
   BATCHED_GATHER f w None None = Inr (w, None, None) \<and>
   mjaccess_batched_get_qpos w None (Some n) = Inr (w, None, Some 0) \<and>
   mjaccess_batched_get_qvel w None (Some n) = Inr (w, None, Some 0) \<and>
   mjaccess_batched_get_xpos w None (Some n) = Inr (w, None, Some 0) \<and>
   mjaccess_batched_get_subtree_com w None (Some n) = Inr (w, None, Some 0) \<and>
   mjaccess_batched_get_cinert w None (Some n) = Inr (w, None, Some 0) \<and>
   mjaccess_batched_get_cvel w None (Some n) = Inr (w, None, Some 0) \<and>
   mjaccess_batched_get_qfrc_actuator w None (Some n) = Inr (w, None, Some 0) \<and>
   mjaccess_batched_get_cfrc_ext w None (Some n) = Inr (w, None, Some 0) \<and>
   mjaccess_batched_set_env_qpos w None env_idx vals k = Inr w \<and>
   mjaccess_batched_set_env_qpos w sim env_idx None k = Inr w \<and>
   mjaccess_batched_set_env_qvel w None env_idx vals k = Inr w \<and>
   mjaccess_batched_set_env_qvel w sim env_idx None k = Inr w"
  by (simp add: mjaccess_batched_step_def mjaccess_batched_reset_def BATCHED_GATHER_def
      mjaccess_batched_set_env_qpos_def mjaccess_batched_set_env_qvel_def
      mjaccess_batched_get_qpos_def mjaccess_batched_get_qvel_def mjaccess_batched_get_xpos_def
      mjaccess_batched_get_subtree_com_def mjaccess_batched_get_cinert_def
      mjaccess_batched_get_cvel_def mjaccess_batched_get_qfrc_actuator_def
      mjaccess_batched_get_cfrc_ext_def split: option.splits)

end
